theory Spec2Isabelle
  imports Main "HOL-Library.Word" "HOL-Library.Multiset"
begin

section \<open>Strings of the source language\<close>

text \<open>
  A string of the source is a sequence of 16-bit code units; \<open>length\<close>, \<open>slice\<close>,
  \<open>repeat\<close> and the regular-expression matcher all count and compare code units.
  \<open>js\<close> writes an ASCII literal as such a sequence.
\<close>

type_synonym cu = "16 word"

type_synonym jsstring = "cu list"

definition js :: "string \<Rightarrow> jsstring" where
  "js s = map of_char s"

text \<open>The filler of \<open>segmentPrompt\<close>, the single code unit U+2588 (full block).\<close>

definition filler :: cu where
  "filler = 0x2588"

text \<open>
  \<open>s.slice(a, b)\<close> for non-negative \<open>a\<close> and \<open>b\<close>: both ends are clamped to the length
  and an empty string comes back when the clamped start is not before the clamped end.
  \<open>s.slice(a)\<close> is \<open>s.slice(a, s.length)\<close>.
\<close>

definition slice :: "jsstring \<Rightarrow> nat \<Rightarrow> nat \<Rightarrow> jsstring" where
  "slice s a b = (let from = min a (length s); to = min b (length s)
                  in take (to - from) (drop from s))"

definition slice_from :: "jsstring \<Rightarrow> nat \<Rightarrow> jsstring" where
  "slice_from s a = slice s a (length s)"

definition repeat :: "cu \<Rightarrow> nat \<Rightarrow> jsstring" where
  "repeat c n = replicate n c"

section \<open>The regular expressions built by segmentPrompt\<close>

text \<open>
  Case-insensitive matching without the unicode flag compares code units after
  \<open>Canonicalize\<close>: the code unit is upper-cased; the result is dropped in favour of the
  original when it is not a single code unit, or when it would turn a code unit of 128 or
  more into one below 128. On ASCII this is \<open>a\<close>..\<open>z\<close> to \<open>A\<close>..\<open>Z\<close> and nothing else.
  The upper-case table of the code units from 128 on belongs to the runtime and is the
  parameter \<open>U\<close> (a code unit whose upper case is not a single code unit is mapped to
  itself by \<open>U\<close>).
\<close>

definition Canonicalize :: "(cu \<Rightarrow> cu) \<Rightarrow> cu \<Rightarrow> cu" where
  "Canonicalize U ch =
     (if ch < 128 then (if 0x61 \<le> ch \<and> ch \<le> 0x7A then ch - 0x20 else ch)
      else (let u = U ch in if u < 128 then ch else u))"

text \<open>The word-boundary assertion looks at the word characters \<open>[A-Za-z0-9_]\<close> on both sides of a position.\<close>

definition isWordChar :: "cu \<Rightarrow> bool" where
  "isWordChar c = ((0x41 \<le> c \<and> c \<le> 0x5A) \<or> (0x61 \<le> c \<and> c \<le> 0x7A)
                   \<or> (0x30 \<le> c \<and> c \<le> 0x39) \<or> c = 0x5F)"

definition IsWordCharBefore :: "jsstring \<Rightarrow> nat \<Rightarrow> bool" where
  "IsWordCharBefore s e = (0 < e \<and> e \<le> length s \<and> isWordChar (s ! (e - 1)))"

definition IsWordCharAt :: "jsstring \<Rightarrow> nat \<Rightarrow> bool" where
  "IsWordCharAt s e = (e < length s \<and> isWordChar (s ! e))"

definition wordBoundary :: "jsstring \<Rightarrow> nat \<Rightarrow> bool" where
  "wordBoundary s e = (IsWordCharBefore s e \<noteq> IsWordCharAt s e)"

text \<open>
  \<open>escapeRegExp\<close> puts a backslash (code unit 0x5C) before each of the fourteen syntax
  characters: \<open>. * + ? ^ $ { } ( ) | [ ]\<close> and the backslash itself.
\<close>

definition syntaxChars :: "cu list" where
  "syntaxChars = js ''.*+?^${}()|[]'' @ [0x5C]"

definition escapeRegExp :: "jsstring \<Rightarrow> jsstring" where
  "escapeRegExp s = concat (map (\<lambda>c. if c \<in> set syntaxChars then [0x5C, c] else [c]) s)"

text \<open>
  The pattern given to \<open>new RegExp\<close> is read as a sequence of atoms: a backslash and
  the letter b are the word-boundary assertion, a backslash before a syntax character is that character, and a
  character that is not a syntax character is itself. Anything else (a quantifier, a
  group, a class, another escape) is outside what \<open>segmentPrompt\<close> can build and is kept
  as \<open>Other\<close>, which matches nothing.
\<close>

datatype atom = WordB | Chr cu | Other

fun compile :: "jsstring \<Rightarrow> atom list" where
  "compile [] = []"
| "compile [c] = (if c \<in> set syntaxChars then [Other] else [Chr c])"
| "compile (c # d # rest) =
     (if c = 0x5C then
        (if d = 0x62 then WordB # compile rest
         else if d \<in> set syntaxChars then Chr d # compile rest
         else Other # compile rest)
      else if c \<in> set syntaxChars then Other # compile (d # rest)
      else Chr c # compile (d # rest))"

text \<open>
  Matching a sequence of atoms at index \<open>e\<close> of the input: the index after the match, or
  \<open>None\<close>. There is no choice point in such a sequence, so no backtracking.
\<close>

fun matchAt :: "(cu \<Rightarrow> cu) \<Rightarrow> atom list \<Rightarrow> jsstring \<Rightarrow> nat \<Rightarrow> nat option" where
  "matchAt U [] s e = Some e"
| "matchAt U (WordB # as) s e = (if wordBoundary s e then matchAt U as s e else None)"
| "matchAt U (Chr c # as) s e =
     (if e < length s \<and> Canonicalize U (s ! e) = Canonicalize U c
      then matchAt U as s (Suc e) else None)"
| "matchAt U (Other # as) s e = None"

text \<open>
  \<open>pattern.exec(s)\<close> for a pattern without the global flag: the start indices
  \<open>0, 1, ..., s.length\<close> are tried in turn; the result is the index of the first match
  and the matched text.
\<close>

fun scan :: "(cu \<Rightarrow> cu) \<Rightarrow> atom list \<Rightarrow> jsstring \<Rightarrow> nat list \<Rightarrow> (nat \<times> jsstring) option" where
  "scan U as s [] = None"
| "scan U as s (i # is) =
     (case matchAt U as s i of
        Some e \<Rightarrow> Some (i, slice s i e)
      | None \<Rightarrow> scan U as s is)"

definition exec :: "(cu \<Rightarrow> cu) \<Rightarrow> atom list \<Rightarrow> jsstring \<Rightarrow> (nat \<times> jsstring) option" where
  "exec U as s = scan U as s [0..<Suc (length s)]"

section \<open>Tokens, segments and segmentation\<close>

datatype TokenRole = descriptor | quality | mood | action

record Token =
  id_T :: jsstring
  text_T :: jsstring
  role :: TokenRole
  alts :: "jsstring list"

datatype Segment = Text_seg jsstring | Token_seg jsstring

record Placement =
  start :: nat
  end_P :: nat
  tokenId :: jsstring

text \<open>
  \<open>xs.sort(cmp)\<close> is stable: an insertion sort that puts an element before the first
  later element it does not compare greater than gives the same result for a
  comparator that is a consistent ordering, as both comparators of \<open>segmentPrompt\<close> are.
\<close>

fun insert_by :: "('a \<Rightarrow> 'a \<Rightarrow> int) \<Rightarrow> 'a \<Rightarrow> 'a list \<Rightarrow> 'a list" where
  "insert_by cmp x [] = [x]"
| "insert_by cmp x (y # ys) = (if cmp x y \<le> 0 then x # y # ys else y # insert_by cmp x ys)"

definition sort_by :: "('a \<Rightarrow> 'a \<Rightarrow> int) \<Rightarrow> 'a list \<Rightarrow> 'a list" where
  "sort_by cmp xs = foldr (insert_by cmp) xs []"

definition byLengthDesc :: "Token \<Rightarrow> Token \<Rightarrow> int" where
  "byLengthDesc a b = int (length (text_T b)) - int (length (text_T a))"

definition byStart :: "Placement \<Rightarrow> Placement \<Rightarrow> int" where
  "byStart a b = int (start a) - int (start b)"

text \<open>The two code units of the word-boundary escape: a backslash and the letter b.\<close>

definition boundaryEscape :: jsstring where
  "boundaryEscape = [0x5C, 0x62]"

definition tokenPattern :: "Token \<Rightarrow> atom list" where
  "tokenPattern token = compile (boundaryEscape @ escapeRegExp (text_T token) @ boundaryEscape)"

text \<open>The first loop: one search per token on the working copy, which is redacted after a match.\<close>

fun placeTokens :: "(cu \<Rightarrow> cu) \<Rightarrow> Token list \<Rightarrow> jsstring \<Rightarrow> Placement list
    \<Rightarrow> jsstring \<times> Placement list" where
  "placeTokens U [] working placements = (working, placements)"
| "placeTokens U (token # rest) working placements =
     (case exec U (tokenPattern token) working of
        None \<Rightarrow> placeTokens U rest working placements
      | Some (index, matched) \<Rightarrow>
          (let start = index;
               end = start + length matched
           in placeTokens U rest
                (slice working 0 start @ repeat filler (end - start) @ slice_from working end)
                (placements @ [\<lparr>start = start, end_P = end, tokenId = id_T token\<rparr>])))"

text \<open>The second loop: literal text before each placement, then the token segment.\<close>

fun emitSegments :: "jsstring \<Rightarrow> Placement list \<Rightarrow> nat \<Rightarrow> Segment list
    \<Rightarrow> nat \<times> Segment list" where
  "emitSegments raw [] currentIndex segments = (currentIndex, segments)"
| "emitSegments raw (placement # rest) currentIndex segments =
     (let segments1 = (if start placement > currentIndex
                       then segments @ [Text_seg (slice raw currentIndex (start placement))]
                       else segments);
          segments2 = segments1 @ [Token_seg (tokenId placement)]
      in emitSegments raw rest (end_P placement) segments2)"

text \<open>The placements as the second loop sees them: found, then sorted by position.\<close>

definition sortedPlacements :: "(cu \<Rightarrow> cu) \<Rightarrow> jsstring \<Rightarrow> Token list \<Rightarrow> Placement list" where
  "sortedPlacements U raw tokens =
     sort_by byStart (snd (placeTokens U (sort_by byLengthDesc tokens) raw []))"

definition segmentPrompt :: "(cu \<Rightarrow> cu) \<Rightarrow> jsstring \<Rightarrow> Token list \<Rightarrow> Segment list" where
  "segmentPrompt U raw tokens =
     (if raw = [] then []
      else if length tokens = 0 then [Text_seg raw]
      else
        (let placements = sortedPlacements U raw tokens;
             (currentIndex, segments) = emitSegments raw placements 0 [];
             segments' = (if currentIndex < length raw
                          then segments @ [Text_seg (slice_from raw currentIndex)]
                          else segments)
         in if length segments' \<noteq> 0 then segments' else [Text_seg raw]))"

section \<open>The source ranges of the emitted segments\<close>

text \<open>
  The segments carry no positions. \<open>emitSpans\<close> and \<open>segmentSpans\<close> are the second loop and
  \<open>segmentPrompt\<close> once more, recording with every segment the range of the raw text it
  is emitted for: from the cursor to the placement's start for a literal, the
  placement's own range for a token. Dropping the ranges gives back \<open>segmentPrompt\<close>
  (lemma \<open>segmentSpans_erase\<close>).
\<close>

type_synonym span = "nat \<times> nat \<times> Segment"

fun emitSpans :: "jsstring \<Rightarrow> Placement list \<Rightarrow> nat \<Rightarrow> span list \<Rightarrow> nat \<times> span list" where
  "emitSpans raw [] currentIndex spans = (currentIndex, spans)"
| "emitSpans raw (placement # rest) currentIndex spans =
     (let spans1 = (if start placement > currentIndex
                    then spans @ [(currentIndex, start placement,
                                   Text_seg (slice raw currentIndex (start placement)))]
                    else spans);
          spans2 = spans1 @ [(start placement, end_P placement, Token_seg (tokenId placement))]
      in emitSpans raw rest (end_P placement) spans2)"

definition segmentSpans :: "(cu \<Rightarrow> cu) \<Rightarrow> jsstring \<Rightarrow> Token list \<Rightarrow> span list" where
  "segmentSpans U raw tokens =
     (if raw = [] then []
      else if length tokens = 0 then [(0, length raw, Text_seg raw)]
      else
        (let placements = sortedPlacements U raw tokens;
             (currentIndex, spans) = emitSpans raw placements 0 [];
             spans' = (if currentIndex < length raw
                       then spans @ [(currentIndex, length raw, Text_seg (slice_from raw currentIndex))]
                       else spans)
         in if length spans' \<noteq> 0 then spans' else [(0, length raw, Text_seg raw)]))"

text \<open>
  A span list tiles the range from \<open>a\<close> to \<open>b\<close> when its ranges follow one another from
  \<open>a\<close> to \<open>b\<close> with no gap and no overlap. A span fits when a literal holds the raw text of
  its range and a token's range is a recorded placement of that token.
\<close>

fun tiling :: "nat \<Rightarrow> nat \<Rightarrow> span list \<Rightarrow> bool" where
  "tiling a b [] = (a = b)"
| "tiling a b ((lo, hi, seg) # rest) = (lo = a \<and> lo \<le> hi \<and> tiling hi b rest)"

fun spanFits :: "jsstring \<Rightarrow> Placement list \<Rightarrow> span \<Rightarrow> bool" where
  "spanFits raw ps (lo, hi, Text_seg v) = (v = slice raw lo hi)"
| "spanFits raw ps (lo, hi, Token_seg i) = (\<lparr>start = lo, end_P = hi, tokenId = i\<rparr> \<in> set ps)"

text \<open>The ranges of the token segments of a span list, as placements.\<close>

fun placedRanges :: "span list \<Rightarrow> Placement list" where
  "placedRanges [] = []"
| "placedRanges ((lo, hi, Text_seg v) # rest) = placedRanges rest"
| "placedRanges ((lo, hi, Token_seg i) # rest) = \<lparr>start = lo, end_P = hi, tokenId = i\<rparr> # placedRanges rest"

definition covers :: "nat \<Rightarrow> span \<Rightarrow> bool" where
  "covers x sp = (fst sp \<le> x \<and> x < fst (snd sp))"

section \<open>Predicates of the segmentation proofs\<close>

text \<open>
  No code unit of a token text matches the filler under the case folding. For the
  table of the runtime, where only the filler itself folds to the filler's fold, this
  says that no token text contains the filler.
\<close>

definition fillerFree :: "(cu \<Rightarrow> cu) \<Rightarrow> Token list \<Rightarrow> bool" where
  "fillerFree U ts = (\<forall>t \<in> set ts. \<forall>c \<in> set (text_T t). Canonicalize U c \<noteq> Canonicalize U filler)"

text \<open>
  A placement is well placed when its range lies inside the raw text and it carries the
  id of a token whose text equals the covered range of the raw text up to case.
\<close>

definition wellPlaced :: "(cu \<Rightarrow> cu) \<Rightarrow> jsstring \<Rightarrow> Token list \<Rightarrow> Placement \<Rightarrow> bool" where
  "wellPlaced U raw ts p =
     (start p \<le> end_P p \<and> end_P p \<le> length raw
      \<and> (\<exists>t \<in> set ts. id_T t = tokenId p
            \<and> map (Canonicalize U) (text_T t)
                = map (Canonicalize U) (slice raw (start p) (end_P p))))"

text \<open>Two placements are separate when the one that starts first ends before the other starts.\<close>

definition separate :: "Placement \<Rightarrow> Placement \<Rightarrow> bool" where
  "separate p q = ((start p \<le> start q \<longrightarrow> end_P p \<le> start q)
                   \<and> (start q \<le> start p \<longrightarrow> end_P q \<le> start p))"

text \<open>
  The invariant of the first loop, for the tokens still to be searched, the working copy
  and the placements so far; \<open>all\<close> is the whole token list.
\<close>

definition placeInv :: "(cu \<Rightarrow> cu) \<Rightarrow> jsstring \<Rightarrow> Token list \<Rightarrow> Token list \<Rightarrow> jsstring
    \<Rightarrow> Placement list \<Rightarrow> bool" where
  "placeInv U raw all rest w ps =
     (length w = length raw
      \<and> (\<forall>p \<in> set ps. wellPlaced U raw all p
             \<and> (\<forall>k. start p \<le> k \<and> k < end_P p \<longrightarrow> w ! k = filler)
             \<and> (\<forall>t \<in> set rest. length (text_T t) \<le> end_P p - start p))
      \<and> (\<forall>k < length raw. w ! k = raw ! k \<or> (\<exists>p \<in> set ps. start p \<le> k \<and> k < end_P p))
      \<and> sorted_wrt separate ps
      \<and> sorted_wrt (\<lambda>a b. length (text_T b) \<le> length (text_T a)) rest
      \<and> set rest \<subseteq> set all
      \<and> (\<forall>t \<in> set rest. \<forall>c \<in> set (text_T t). Canonicalize U c \<noteq> Canonicalize U filler))"

section \<open>Rebuilding the raw text\<close>

text \<open>\<open>new Map(entries)\<close> sets the entries in order, so a later entry replaces an earlier one with the same key.\<close>

definition new_Map :: "('k \<times> 'v) list \<Rightarrow> ('k \<rightharpoonup> 'v)" where
  "new_Map entries = foldl (\<lambda>m (k, v). m(k \<mapsto> v)) Map.empty entries"

text \<open>
  \<open>tokenMap.get(id)?.text ?? ""\<close>: a token segment whose id is not in the map
  contributes the empty string.
\<close>

definition resolve :: "(jsstring \<rightharpoonup> Token) \<Rightarrow> Segment \<Rightarrow> jsstring" where
  "resolve tokenMap segment =
     (case segment of
        Text_seg v \<Rightarrow> v
      | Token_seg i \<Rightarrow> (case tokenMap i of None \<Rightarrow> [] | Some t \<Rightarrow> text_T t))"

definition buildRawFromSegments :: "Segment list \<Rightarrow> (jsstring \<rightharpoonup> Token) \<Rightarrow> jsstring" where
  "buildRawFromSegments segments tokenMap = concat (map (resolve tokenMap) segments)"

section \<open>The document and the replace operation\<close>

record PromptDoc =
  raw :: jsstring
  tokens :: "Token list"

text \<open>
  The component state that \<open>replaceToken\<close> reads and writes: the document (or null), the
  segment sequence and the id of the token whose menu is open (or null).
\<close>

record State =
  promptDoc :: "PromptDoc option"
  segments :: "Segment list"
  openTokenId :: "jsstring option"

text \<open>The token index: \<open>new Map(tokens.map(token => [token.id, token]))\<close>.\<close>

definition tokenIndex :: "Token list \<Rightarrow> (jsstring \<rightharpoonup> Token)" where
  "tokenIndex ts = new_Map (map (\<lambda>token. (id_T token, token)) ts)"

definition replaceToken :: "State \<Rightarrow> jsstring \<Rightarrow> jsstring \<Rightarrow> State" where
  "replaceToken st tokenId' newText =
     (case promptDoc st of
        None \<Rightarrow> st
      | Some doc \<Rightarrow>
          (let updatedTokens = map (\<lambda>token. if id_T token = tokenId'
                                               then token\<lparr>text_T := newText\<rparr> else token)
                                   (tokens doc);
               updatedTokenMap = tokenIndex updatedTokens;
               updatedRaw = buildRawFromSegments (segments st) updatedTokenMap
           in st\<lparr>promptDoc := Some \<lparr>raw = updatedRaw, tokens = updatedTokens\<rparr>,
                 openTokenId := None\<rparr>))"

text \<open>
  What \<open>pickSuggestion\<close> stores once the enhanced prompt and its tokens have arrived:
  the document, and the segments computed from the same prompt and tokens.
\<close>

definition storePrompt :: "(cu \<Rightarrow> cu) \<Rightarrow> jsstring \<Rightarrow> Token list \<Rightarrow> State \<Rightarrow> State" where
  "storePrompt U prompt toks st =
     st\<lparr>promptDoc := Some \<lparr>raw = prompt, tokens = toks\<rparr>,
        segments := segmentPrompt U prompt toks\<rparr>"

text \<open>The state of the component before any prompt has been picked.\<close>

definition initialState :: State where
  "initialState = \<lparr>promptDoc = None, segments = [], openTokenId = None\<rparr>"

section \<open>The role classifier\<close>

text \<open>
  The patterns of \<open>inferRole\<close> are alternatives of literal characters and runs of
  white space (one or more white-space characters), some between two word-boundary
  assertions, all with the flag \<open>i\<close>. A piece is a literal character or such a run. The
  matcher lists the end indices a sequence of pieces can reach from a start index in
  the order backtracking tries them: the run is greedy, so the longest run of white
  space comes first.
\<close>

datatype piece = PChr cu | PSpaces

definition whiteSpace :: "cu list" where
  "whiteSpace = [0x09, 0x0A, 0x0B, 0x0C, 0x0D, 0x20, 0xA0, 0x1680, 0x2000, 0x2001, 0x2002,
                 0x2003, 0x2004, 0x2005, 0x2006, 0x2007, 0x2008, 0x2009, 0x200A, 0x2028,
                 0x2029, 0x202F, 0x205F, 0x3000, 0xFEFF]"

definition isSpace :: "cu \<Rightarrow> bool" where
  "isSpace c = (c \<in> set whiteSpace)"

text \<open>With the flag \<open>i\<close> a class matches a character whose fold is the fold of a member.\<close>

definition isSpaceCI :: "(cu \<Rightarrow> cu) \<Rightarrow> cu \<Rightarrow> bool" where
  "isSpaceCI U c = (Canonicalize U c \<in> set (map (Canonicalize U) whiteSpace))"

definition runOfSpaces :: "(cu \<Rightarrow> cu) \<Rightarrow> jsstring \<Rightarrow> nat \<Rightarrow> nat" where
  "runOfSpaces U s e = length (takeWhile (isSpaceCI U) (drop e s))"

fun matchPieces :: "(cu \<Rightarrow> cu) \<Rightarrow> piece list \<Rightarrow> jsstring \<Rightarrow> nat \<Rightarrow> nat list" where
  "matchPieces U [] s e = [e]"
| "matchPieces U (PChr c # ps) s e =
     (if e < length s \<and> Canonicalize U (s ! e) = Canonicalize U c
      then matchPieces U ps s (Suc e) else [])"
| "matchPieces U (PSpaces # ps) s e =
     concat (map (\<lambda>k. matchPieces U ps s (e + k)) (rev [1..<Suc (runOfSpaces U s e)]))"

record RegExp =
  wordBounded :: bool
  alternatives :: "piece list list"

definition matchAlternatives :: "(cu \<Rightarrow> cu) \<Rightarrow> piece list list \<Rightarrow> jsstring \<Rightarrow> nat \<Rightarrow> nat list" where
  "matchAlternatives U alts' s e = concat (map (\<lambda>a. matchPieces U a s e) alts')"

text \<open>The end index of the match of a pattern at a start index, if there is one.\<close>

definition matchRegExp :: "(cu \<Rightarrow> cu) \<Rightarrow> RegExp \<Rightarrow> jsstring \<Rightarrow> nat \<Rightarrow> nat option" where
  "matchRegExp U re s e =
     (if wordBounded re
      then (if wordBoundary s e
            then find (wordBoundary s) (matchAlternatives U (alternatives re) s e) else None)
      else (case matchAlternatives U (alternatives re) s e of [] \<Rightarrow> None | x # _ \<Rightarrow> Some x))"

fun firstMatch :: "(cu \<Rightarrow> cu) \<Rightarrow> RegExp \<Rightarrow> jsstring \<Rightarrow> nat list \<Rightarrow> nat option" where
  "firstMatch U re s [] = None"
| "firstMatch U re s (i # is) =
     (case matchRegExp U re s i of Some e \<Rightarrow> Some e | None \<Rightarrow> firstMatch U re s is)"

text \<open>\<open>re.test(s)\<close> for a pattern without the flag \<open>g\<close>: the search starts at index 0.\<close>

definition test :: "(cu \<Rightarrow> cu) \<Rightarrow> RegExp \<Rightarrow> jsstring \<Rightarrow> bool" where
  "test U re s = (firstMatch U re s [0..<Suc (length s)] \<noteq> None)"

text \<open>
  \<open>re.test(s)\<close> for a pattern with the flag \<open>g\<close>: the search starts at the pattern's
  \<open>lastIndex\<close>, which is set to the end of the match on success and to 0 on failure.
  The result is the answer and the new \<open>lastIndex\<close>.
\<close>

definition testGlobal :: "(cu \<Rightarrow> cu) \<Rightarrow> RegExp \<Rightarrow> jsstring \<Rightarrow> nat \<Rightarrow> bool \<times> nat" where
  "testGlobal U re s lastIndex' =
     (if lastIndex' > length s then (False, 0)
      else (case firstMatch U re s [lastIndex'..<Suc (length s)] of
              None \<Rightarrow> (False, 0)
            | Some e \<Rightarrow> (True, e)))"

definition lit :: "string \<Rightarrow> piece list" where
  "lit s = map PChr (js s)"

definition KEYWORD_ROLE :: "(RegExp \<times> TokenRole) list" where
  "KEYWORD_ROLE =
     [(\<lparr>wordBounded = False, alternatives =
          [lit ''high'' @ [PSpaces] @ lit ''quality'', lit ''8k'',
           lit ''ultra'' @ [PSpaces] @ lit ''detail'',
           lit ''studio'' @ [PSpaces] @ lit ''lighting'', lit ''volumetric'',
           lit ''rim'' @ [PSpaces] @ lit ''light'', lit ''softbox'',
           lit ''hard'' @ [PSpaces] @ lit ''light'', lit ''backlit'', lit ''bokeh'']\<rparr>, quality),
      (\<lparr>wordBounded = False, alternatives =
          [lit ''chiaroscuro'', lit ''cinematic'', lit ''cool'' @ [PSpaces] @ lit ''tones'',
           lit ''warm'' @ [PSpaces] @ lit ''tones'', lit ''neon'', lit ''pastel'',
           lit ''monochrome'', lit ''earthy'', lit ''desaturated'', lit ''moody'',
           lit ''vibrant'']\<rparr>, mood),
      (\<lparr>wordBounded = False, alternatives =
          [lit ''carved'', lit ''woven'', lit ''forged'', lit ''grown'', lit ''assembled'',
           lit ''whittled'', lit ''sculpted'', lit ''panning'', lit ''tilt'', lit ''dolly'',
           lit ''zoom'', lit ''tracking'', lit ''orbiting'']\<rparr>, action),
      (\<lparr>wordBounded = False, alternatives =
          [lit ''dress'', lit ''gown'', lit ''armor'', lit ''cat'', lit ''city'', lit ''forest'',
           lit ''portrait'', lit ''mountain'', lit ''desert'', lit ''robot'', lit ''mask'',
           lit ''character'', lit ''creature'', lit ''temple'', lit ''street'']\<rparr>, descriptor)]"

text \<open>
  The module state: the counter of \<open>uid\<close> and the \<open>lastIndex\<close> of the four patterns of
  \<open>KEYWORD_ROLE\<close>, in their order. Both survive from one call to the next.
\<close>

record Globals =
  idCounter :: nat
  lastIndex :: "nat list"

definition initialGlobals :: Globals where
  "initialGlobals = \<lparr>idCounter = 0, lastIndex = [0, 0, 0, 0]\<rparr>"

text \<open>The loop of \<open>inferRole\<close> over \<open>KEYWORD_ROLE\<close>: the first pattern that tests true gives the role.\<close>

fun keywordRole :: "(cu \<Rightarrow> cu) \<Rightarrow> (RegExp \<times> TokenRole) list \<Rightarrow> nat list \<Rightarrow> jsstring
    \<Rightarrow> TokenRole option \<times> nat list" where
  "keywordRole U ((pattern, role') # rest) (li # lis) s =
     (case testGlobal U pattern s li of
        (True, li') \<Rightarrow> (Some role', li' # lis)
      | (False, li') \<Rightarrow>
          (case keywordRole U rest lis s of (found, lis') \<Rightarrow> (found, li' # lis')))"
| "keywordRole U _ lis s = (None, lis)"

definition inferRole :: "(cu \<Rightarrow> cu) \<Rightarrow> Globals \<Rightarrow> jsstring \<Rightarrow> TokenRole \<times> Globals" where
  "inferRole U g s =
     (case keywordRole U KEYWORD_ROLE (lastIndex g) s of
        (Some role', lis) \<Rightarrow> (role', g\<lparr>lastIndex := lis\<rparr>)
      | (None, lis) \<Rightarrow>
          (if test U \<lparr>wordBounded = True, alternatives =
                        [lit ''ly'', lit ''ic'', lit ''ous'', lit ''ful'', lit ''ish'', lit ''ive'']\<rparr> s
              \<or> test U \<lparr>wordBounded = False, alternatives =
                        [lit ''light'', lit ''tone'', lit ''quality'', lit ''detail'']\<rparr> s
           then quality
           else if test U \<lparr>wordBounded = True, alternatives =
                        [lit ''run'', lit ''fly'', lit ''carved'', lit ''forged'', lit ''grown'',
                         lit ''shoot'', lit ''tilt'', lit ''pan'', lit ''zoom'', lit ''orbit'',
                         lit ''track'', lit ''hold'']\<rparr> s
           then action
           else if test U \<lparr>wordBounded = True, alternatives =
                        [lit ''moody'', lit ''warm'', lit ''cool'', lit ''neon'', lit ''pastel'',
                         lit ''earthy'', lit ''grim'', lit ''bright'', lit ''soft'', lit ''harsh'']\<rparr> s
           then mood
           else descriptor,
           g\<lparr>lastIndex := lis\<rparr>))"

section \<open>The fallback extractor\<close>

text \<open>
  \<open>s.toLowerCase()\<close>: on a string of ASCII code units \<open>A\<close>..\<open>Z\<close> become \<open>a\<close>..\<open>z\<close>; the
  lower case of any other string is the runtime's, the parameter \<open>L\<close>.
\<close>

definition toLowerCase :: "(jsstring \<Rightarrow> jsstring) \<Rightarrow> jsstring \<Rightarrow> jsstring" where
  "toLowerCase L s =
     (if list_all (\<lambda>c. c < 128) s
      then map (\<lambda>c. if 0x41 \<le> c \<and> c \<le> 0x5A then c + 0x20 else c) s
      else L s)"

text \<open>\<open>s.includes(t)\<close>: \<open>t\<close> occurs in \<open>s\<close> at some index.\<close>

fun includes_s :: "jsstring \<Rightarrow> jsstring \<Rightarrow> bool" where
  "includes_s [] t = (t = [])"
| "includes_s (c # cs) t = (take (length t) (c # cs) = t \<or> includes_s cs t)"

text \<open>
  \<open>s.split\<close> at the runs of white space: the pieces between the runs; a run at the start or
  at the end leaves an empty piece there, and the empty string gives one empty piece.
\<close>

function splitSpaces :: "jsstring \<Rightarrow> jsstring \<Rightarrow> jsstring list" where
  "splitSpaces cur [] = [cur]"
| "splitSpaces cur (c # cs) =
     (if isSpace c then cur # splitSpaces [] (dropWhile isSpace cs)
      else splitSpaces (cur @ [c]) cs)"
  by pat_completeness auto
termination
  by (relation "measure (\<lambda>(cur, s). length s)")
     (auto simp: less_Suc_eq_le length_dropWhile_le)

definition split_spaces :: "jsstring \<Rightarrow> jsstring list" where
  "split_spaces s = splitSpaces [] s"

text \<open>The decimal digits of a number, as a template literal prints it.\<close>

function decimal :: "nat \<Rightarrow> jsstring" where
  "decimal n = (if n < 10 then [0x30 + of_nat n] else decimal (n div 10) @ [0x30 + of_nat (n mod 10)])"
  by pat_completeness auto
termination
  by (relation "measure id") auto

text \<open>
  \<open>uid\<close> reads the clock and increments the counter. \<open>now k\<close> is the clock's value at the
  call that brings the counter to \<open>k\<close>.
\<close>

definition uid :: "(nat \<Rightarrow> nat) \<Rightarrow> Globals \<Rightarrow> jsstring \<times> Globals" where
  "uid now g =
     (let k = Suc (idCounter g)
      in (js ''token-'' @ decimal (now k) @ js ''-'' @ decimal k, g\<lparr>idCounter := k\<rparr>))"

text \<open>
  \<open>getDefaultAlternatives\<close> looks the lower-cased term up in an object literal and falls
  back to a fixed list when the lookup gives nothing. The literal inherits from
  \<open>Object.prototype\<close>, so the keys \<open>constructor\<close> and \<open>__proto__\<close> (the inherited names
  that are their own lower case) give the inherited value, which is not a list.
\<close>

datatype AltValue = Alternatives "jsstring list" | ObjectFunction | ObjectPrototype

definition altMap :: "(jsstring \<times> jsstring list) list" where
  "altMap =
     [(js ''high quality'', map js [''premium'', ''photoreal'', ''film-grade'', ''clean'', ''polished'', ''pristine'']),
      (js ''ultra detailed'', map js [''intricate'', ''highly detailed'', ''fine detail'', ''micro-detail'', ''ornate'', ''textured'']),
      (js ''studio lighting'', map js [''natural light'', ''softbox'', ''rim light'', ''backlit'', ''hard light'', ''volumetric'']),
      (js ''cinematic'', map js [''filmic'', ''dramatic'', ''epic'', ''documentary'', ''stylized'', ''artistic'']),
      (js ''dramatic'', map js [''subtle'', ''intense'', ''moody'', ''striking'', ''bold'', ''understated'']),
      (js ''portrait'', map js [''headshot'', ''close-up'', ''bust'', ''profile'', ''three-quarter'', ''candid'']),
      (js ''landscape'', map js [''scenery'', ''vista'', ''panorama'', ''terrain'', ''countryside'', ''seascape'']),
      (js ''detailed'', map js [''intricate'', ''elaborate'', ''thorough'', ''precise'', ''meticulous'', ''refined'']),
      (js ''realistic'', map js [''lifelike'', ''natural'', ''authentic'', ''true-to-life'', ''photographic'', ''believable'']),
      (js ''professional'', map js [''expert'', ''polished'', ''commercial'', ''studio-quality'', ''refined'', ''masterful'']),
      (js ''artistic'', map js [''creative'', ''expressive'', ''stylized'', ''aesthetic'', ''imaginative'', ''inspired'']),
      (js ''beautiful'', map js [''stunning'', ''gorgeous'', ''elegant'', ''graceful'', ''lovely'', ''attractive'']),
      (js ''stunning'', map js [''breathtaking'', ''magnificent'', ''spectacular'', ''impressive'', ''striking'', ''remarkable'']),
      (js ''masterpiece'', map js [''work of art'', ''tour de force'', ''magnum opus'', ''classic'', ''exemplary'', ''outstanding''])]"

definition getDefaultAlternatives :: "(jsstring \<Rightarrow> jsstring) \<Rightarrow> jsstring \<Rightarrow> AltValue" where
  "getDefaultAlternatives L term' =
     (let key = toLowerCase L term'
      in case map_of altMap key of
           Some list \<Rightarrow> Alternatives list
         | None \<Rightarrow>
             (if key = js ''constructor'' then ObjectFunction
              else if key = js ''__proto__'' then ObjectPrototype
              else Alternatives (map js [''enhanced'', ''improved'', ''refined'', ''elevated'',
                                         ''sophisticated'', ''polished''])))"

text \<open>A token as the extractor builds it; its alternatives are what the lookup gave.\<close>

record FoundToken =
  found_id :: jsstring
  found_text :: jsstring
  found_role :: TokenRole
  found_alts :: AltValue

definition commonTerms :: "jsstring list" where
  "commonTerms = map js
     [''high quality'', ''ultra detailed'', ''studio lighting'', ''cinematic'',
      ''dramatic'', ''portrait'', ''landscape'', ''detailed'', ''realistic'',
      ''professional'', ''artistic'', ''beautiful'', ''stunning'', ''masterpiece'']"

definition stopWords :: "jsstring list" where
  "stopWords = map js [''with'', ''from'', ''that'', ''this'', ''they'', ''have'', ''will'', ''been'', ''were'']"

text \<open>One pushed token: the id first, then the role, then the alternatives.\<close>

definition makeToken :: "(cu \<Rightarrow> cu) \<Rightarrow> (jsstring \<Rightarrow> jsstring) \<Rightarrow> (nat \<Rightarrow> nat) \<Rightarrow> Globals \<Rightarrow> jsstring
    \<Rightarrow> FoundToken \<times> Globals" where
  "makeToken U L now g t =
     (case uid now g of (i, g1) \<Rightarrow>
        (case inferRole U g1 t of (r, g2) \<Rightarrow>
           (\<lparr>found_id = i, found_text = t, found_role = r,
             found_alts = getDefaultAlternatives L t\<rparr>, g2)))"

fun termLoop :: "(cu \<Rightarrow> cu) \<Rightarrow> (jsstring \<Rightarrow> jsstring) \<Rightarrow> (nat \<Rightarrow> nat) \<Rightarrow> jsstring \<Rightarrow> jsstring list
    \<Rightarrow> Globals \<Rightarrow> FoundToken list \<Rightarrow> FoundToken list \<times> Globals" where
  "termLoop U L now prompt [] g foundTokens = (foundTokens, g)"
| "termLoop U L now prompt (term' # rest) g foundTokens =
     (if includes_s (toLowerCase L prompt) term'
      then (case makeToken U L now g term' of
              (token, g') \<Rightarrow> termLoop U L now prompt rest g' (foundTokens @ [token]))
      else termLoop U L now prompt rest g foundTokens)"

fun wordLoop :: "(cu \<Rightarrow> cu) \<Rightarrow> (jsstring \<Rightarrow> jsstring) \<Rightarrow> (nat \<Rightarrow> nat) \<Rightarrow> jsstring list
    \<Rightarrow> Globals \<Rightarrow> FoundToken list \<Rightarrow> FoundToken list \<times> Globals" where
  "wordLoop U L now [] g foundTokens = (foundTokens, g)"
| "wordLoop U L now (word # rest) g foundTokens =
     (if \<not> list_ex (\<lambda>token. includes_s (toLowerCase L (found_text token)) word) foundTokens
      then (case makeToken U L now g word of
              (token, g') \<Rightarrow> wordLoop U L now rest g' (foundTokens @ [token]))
      else wordLoop U L now rest g foundTokens)"

definition extractFallbackTokens :: "(cu \<Rightarrow> cu) \<Rightarrow> (jsstring \<Rightarrow> jsstring) \<Rightarrow> (nat \<Rightarrow> nat) \<Rightarrow> Globals
    \<Rightarrow> jsstring \<Rightarrow> FoundToken list \<times> Globals" where
  "extractFallbackTokens U L now g prompt =
     (let words = split_spaces (toLowerCase L prompt);
          (found1, g1) = termLoop U L now prompt commonTerms g [];
          significantWords =
            take 6 (filter (\<lambda>word. length word > 4 \<and> word \<notin> set stopWords) words);
          (found2, g2) = wordLoop U L now significantWords g1 found1
      in (take 8 found2, g2))"

section \<open>Sample inputs\<close>

text \<open>
  The samples are ASCII apart from the filler, so the case tables of the runtime play no
  part in them; where a closed statement needs the tables they are the identity.
\<close>

definition sampleToken :: "string \<Rightarrow> string \<Rightarrow> Token" where
  "sampleToken i t = \<lparr>id_T = js i, text_T = js t, role = descriptor, alts = []\<rparr>"

definition fillerToken :: "string \<Rightarrow> Token" where
  "fillerToken i = \<lparr>id_T = js i, text_T = [filler], role = descriptor, alts = []\<rparr>"

section \<open>Slices and sorting\<close>

text \<open>
  Facts about \<open>slice\<close> on indices inside the string, and about the stable sort: it
  permutes its input, keeps a symmetric relation that held between all elements, and
  orders by the comparator's key.
\<close>

lemma slice_from_0: "slice_from r 0 = r"
  by (simp add: slice_from_def slice_def)

lemma length_slice: "b \<le> length s \<Longrightarrow> length (slice s a b) = b - a"
  by (auto simp: slice_def Let_def min_def)

lemma nth_slice: "b \<le> length s \<Longrightarrow> j < b - a \<Longrightarrow> slice s a b ! j = s ! (a + j)"
  by (auto simp: slice_def Let_def min_def)

lemma slice_full: "slice r 0 (length r) = r"
  by (simp add: slice_def)

lemma slice_empty: "slice r a a = []"
  by (simp add: slice_def)

lemma slice_append: "a \<le> b \<Longrightarrow> b \<le> c \<Longrightarrow> c \<le> length r \<Longrightarrow> slice r a b @ slice r b c = slice r a c"
proof -
  assume h: "a \<le> b" "b \<le> c" "c \<le> length r"
  have "take (c - a) (drop a r) = take (b - a) (drop a r) @ take (c - b) (drop (b - a) (drop a r))"
    using h take_add [of "b - a" "c - b" "drop a r"] by simp
  then show ?thesis using h by (simp add: slice_def Let_def min_def)
qed

lemma mset_insert_by: "mset (insert_by cmp x xs) = add_mset x (mset xs)"
  by (induction xs) auto

lemma mset_sort_by: "mset (sort_by cmp xs) = mset xs"
  by (induction xs) (auto simp: sort_by_def mset_insert_by)

lemma set_sort_by: "set (sort_by cmp xs) = set xs"
  using mset_sort_by [of cmp xs] by (metis set_mset_mset)

lemma length_sort_by: "length (sort_by cmp xs) = length xs"
  using mset_sort_by [of cmp xs] by (metis size_mset)

lemma set_insert_by: "set (insert_by cmp x xs) = insert x (set xs)"
  by (induction xs) auto

lemma sorted_wrt_insert_by_sym:
  "sorted_wrt S xs \<Longrightarrow> (\<And>y. y \<in> set xs \<Longrightarrow> S x y \<and> S y x) \<Longrightarrow> sorted_wrt S (insert_by cmp x xs)"
  by (induction xs) (auto simp: set_insert_by)

lemma sorted_wrt_sort_by_sym:
  assumes "sorted_wrt S xs" and sym: "\<And>a b. S a b \<Longrightarrow> S b a"
  shows "sorted_wrt S (sort_by cmp xs)"
  using assms(1)
proof (induction xs)
  case Nil
  show ?case by (simp add: sort_by_def)
next
  case (Cons x xs)
  have "sorted_wrt S (insert_by cmp x (sort_by cmp xs))"
  proof (rule sorted_wrt_insert_by_sym)
    show "sorted_wrt S (sort_by cmp xs)" using Cons by simp
    show "S x y \<and> S y x" if "y \<in> set (sort_by cmp xs)" for y
      using that Cons.prems sym by (auto simp: set_sort_by)
  qed
  then show ?case by (simp add: sort_by_def)
qed

lemma sorted_wrt_insert_by_key:
  fixes k :: "'a \<Rightarrow> int"
  assumes key: "\<And>a b. (cmp a b \<le> 0) = (k a \<le> k b)"
  shows "sorted_wrt (\<lambda>a b. k a \<le> k b) xs \<Longrightarrow> sorted_wrt (\<lambda>a b. k a \<le> k b) (insert_by cmp x xs)"
  by (induction xs) (auto simp: set_insert_by key)

lemma sorted_wrt_sort_by_key:
  fixes k :: "'a \<Rightarrow> int"
  assumes key: "\<And>a b. (cmp a b \<le> 0) = (k a \<le> k b)"
  shows "sorted_wrt (\<lambda>a b. k a \<le> k b) (sort_by cmp xs)"
proof (induction xs)
  case Nil
  show ?case by (simp add: sort_by_def)
next
  case (Cons x xs)
  have "sorted_wrt (\<lambda>a b. k a \<le> k b) (insert_by cmp x (sort_by cmp xs))"
    using key Cons by (rule sorted_wrt_insert_by_key)
  then show ?case by (simp add: sort_by_def)
qed

lemma sorted_byLengthDesc:
  "sorted_wrt (\<lambda>a b. length (text_T b) \<le> length (text_T a)) (sort_by byLengthDesc ts)"
  using sorted_wrt_sort_by_key [of byLengthDesc "\<lambda>t. - int (length (text_T t))" ts]
  by (simp add: byLengthDesc_def)

lemma sorted_byStart: "sorted_wrt (\<lambda>a b. start a \<le> start b) (sort_by byStart ps)"
  using sorted_wrt_sort_by_key [of byStart "\<lambda>p. int (start p)" ps]
  by (simp add: byStart_def)

section \<open>The patterns and their matches\<close>

text \<open>
  The pattern built for a token is read as: word boundary, the characters of the token
  text, word boundary. \<open>exec\<close> returns the leftmost index where this matches; it returns
  nothing exactly when no index matches.
\<close>

lemma backslash_syntax: "(0x5C :: cu) \<in> set syntaxChars"
  by (simp add: syntaxChars_def)

lemma b_not_syntax: "(0x62 :: cu) \<notin> set syntaxChars"
  by (simp add: syntaxChars_def js_def)

lemma compile_escape: "compile (escapeRegExp s @ boundaryEscape) = map Chr s @ [WordB]"
proof (induction s)
  case Nil
  show ?case by (simp add: escapeRegExp_def boundaryEscape_def)
next
  case (Cons c s)
  have e: "escapeRegExp (c # s) = (if c \<in> set syntaxChars then [0x5C, c] else [c]) @ escapeRegExp s"
    by (simp add: escapeRegExp_def)
  show ?case
  proof (cases "c \<in> set syntaxChars")
    case True
    then have "c \<noteq> 0x62" using b_not_syntax by auto
    with True Cons.IH show ?thesis by (simp add: e)
  next
    case False
    then have c: "c \<noteq> 0x5C" using backslash_syntax by auto
    obtain d rest where r: "escapeRegExp s @ boundaryEscape = d # rest"
      by (cases "escapeRegExp s @ boundaryEscape") (auto simp: boundaryEscape_def)
    have "compile (c # d # rest) = Chr c # compile (d # rest)"
      using False c by simp
    with Cons.IH r False show ?thesis by (simp add: e)
  qed
qed

lemma tokenPattern_atoms: "tokenPattern t = WordB # map Chr (text_T t) @ [WordB]"
  by (simp add: tokenPattern_def boundaryEscape_def compile_escape [unfolded boundaryEscape_def])

lemma matchAt_Chrs:
  "e \<le> length s \<Longrightarrow> matchAt U (map Chr t @ as) s e =
     (if e + length t \<le> length s \<and> (\<forall>j < length t. Canonicalize U (s ! (e + j)) = Canonicalize U (t ! j))
      then matchAt U as s (e + length t) else None)"
proof (induction t arbitrary: e)
  case Nil
  then show ?case by simp
next
  case (Cons c t)
  have split: "(\<forall>j < Suc (length t). Canonicalize U (s ! (e + j)) = Canonicalize U ((c # t) ! j))
        \<longleftrightarrow> Canonicalize U (s ! e) = Canonicalize U c
            \<and> (\<forall>j < length t. Canonicalize U (s ! (Suc e + j)) = Canonicalize U (t ! j))"
    by (auto simp: less_Suc_eq_0_disj)
  show ?case
  proof (cases "e < length s")
    case True
    then show ?thesis using Cons.IH [of "Suc e"] split by auto
  next
    case False
    then show ?thesis by simp
  qed
qed

lemma matchAt_tokenPattern:
  "e \<le> length s \<Longrightarrow> matchAt U (tokenPattern t) s e =
     (if wordBoundary s e \<and> e + length (text_T t) \<le> length s
         \<and> (\<forall>j < length (text_T t). Canonicalize U (s ! (e + j)) = Canonicalize U (text_T t ! j))
         \<and> wordBoundary s (e + length (text_T t))
      then Some (e + length (text_T t)) else None)"
  by (simp add: tokenPattern_atoms matchAt_Chrs)

lemma scan_SomeD:
  "scan U as s is = Some (i, m) \<Longrightarrow>
   \<exists>pre post e. is = pre @ i # post \<and> (\<forall>k \<in> set pre. matchAt U as s k = None)
                \<and> matchAt U as s i = Some e \<and> m = slice s i e"
proof (induction "is")
  case Nil
  then show ?case by simp
next
  case (Cons a "is")
  show ?case
  proof (cases "matchAt U as s a")
    case None
    with Cons.prems have "scan U as s is = Some (i, m)" by simp
    from Cons.IH [OF this] obtain pre post e where
      "is = pre @ i # post" "\<forall>k \<in> set pre. matchAt U as s k = None"
      "matchAt U as s i = Some e" "m = slice s i e" by blast
    with None show ?thesis
      by (intro exI [of _ "a # pre"] exI [of _ post] exI [of _ e]) simp
  next
    case (Some e)
    with Cons.prems have "i = a" "m = slice s a e" by auto
    with Some show ?thesis
      by (intro exI [of _ "[]"] exI [of _ "is"] exI [of _ e]) simp
  qed
qed

lemma scan_None: "scan U as s is = None \<Longrightarrow> k \<in> set is \<Longrightarrow> matchAt U as s k = None"
  by (induction "is") (auto split: option.splits)

lemma scan_NoneI: "(\<And>k. k \<in> set is \<Longrightarrow> matchAt U as s k = None) \<Longrightarrow> scan U as s is = None"
  by (induction "is") auto

lemma upt_split_prefix:
  assumes "[0..<n] = pre @ i # post"
  shows "set pre = {0..<i}" and "i < n"
proof -
  have l: "length pre < n"
    using arg_cong [OF assms, of length] by simp
  have "[0..<n] ! length pre = i"
    using assms by simp
  then have i: "i = length pre" using l by simp
  have "pre = take (length pre) [0..<n]"
    using assms by simp
  also have "\<dots> = [0..<length pre]"
    using l by (simp add: take_upt)
  finally have "set pre = {0..<length pre}" by (metis atLeastLessThan_upt)
  then show "set pre = {0..<i}" using i by simp
  show "i < n" using i l by simp
qed

lemma exec_SomeD:
  assumes "exec U as s = Some (i, m)"
  shows "i \<le> length s" and "\<exists>e. matchAt U as s i = Some e \<and> m = slice s i e"
    and "\<forall>k < i. matchAt U as s k = None"
proof -
  from scan_SomeD [OF assms [unfolded exec_def]] obtain pre post e where
    u: "[0..<Suc (length s)] = pre @ i # post" and n: "\<forall>k \<in> set pre. matchAt U as s k = None"
    and e: "matchAt U as s i = Some e" "m = slice s i e" by blast
  from upt_split_prefix [OF u] have p: "set pre = {0..<i}" and "i < Suc (length s)" by auto
  then show "i \<le> length s" by simp
  show "\<exists>e. matchAt U as s i = Some e \<and> m = slice s i e" using e by blast
  show "\<forall>k < i. matchAt U as s k = None" using n p by auto
qed

lemma exec_None_iff: "exec U as s = None \<longleftrightarrow> (\<forall>i \<le> length s. matchAt U as s i = None)"
proof
  assume "exec U as s = None"
  then have h: "scan U as s [0..<Suc (length s)] = None" by (simp add: exec_def)
  show "\<forall>i \<le> length s. matchAt U as s i = None"
  proof (intro allI impI)
    fix i assume "i \<le> length s"
    then have "i \<in> set [0..<Suc (length s)]" by auto
    with h show "matchAt U as s i = None" by (rule scan_None)
  qed
next
  assume "\<forall>i \<le> length s. matchAt U as s i = None"
  then show "exec U as s = None"
    unfolding exec_def by (intro scan_NoneI) auto
qed

lemma exec_tokenPattern:
  assumes "exec U (tokenPattern t) w = Some (i, m)"
  shows "length m = length (text_T t)"
    and "i + length (text_T t) \<le> length w"
    and "wordBoundary w i"
    and "\<forall>j < length (text_T t). Canonicalize U (w ! (i + j)) = Canonicalize U (text_T t ! j)"
    and "text_T t = [] \<longrightarrow> (\<forall>k < i. \<not> wordBoundary w k)"
proof -
  from exec_SomeD [OF assms] obtain e where
    i: "i \<le> length w" and e: "matchAt U (tokenPattern t) w i = Some e" "m = slice w i e"
    and l: "\<forall>k < i. matchAt U (tokenPattern t) w k = None" by blast
  from e(1) i have c: "wordBoundary w i" "i + length (text_T t) \<le> length w"
      "\<forall>j < length (text_T t). Canonicalize U (w ! (i + j)) = Canonicalize U (text_T t ! j)"
      "e = i + length (text_T t)"
    by (auto simp: matchAt_tokenPattern split: if_splits)
  show "length m = length (text_T t)" using e(2) c(2,4) by (simp add: length_slice)
  show "i + length (text_T t) \<le> length w" by (rule c(2))
  show "wordBoundary w i" by (rule c(1))
  show "\<forall>j < length (text_T t). Canonicalize U (w ! (i + j)) = Canonicalize U (text_T t ! j)" by (rule c(3))
  show "text_T t = [] \<longrightarrow> (\<forall>k < i. \<not> wordBoundary w k)"
  proof (intro impI allI)
    fix k assume t: "text_T t = []" and k: "k < i"
    from l k have "matchAt U (tokenPattern t) w k = None" by blast
    then show "\<not> wordBoundary w k"
      using t k i by (auto simp: matchAt_tokenPattern split: if_splits)
  qed
qed

lemma exec_tokenPattern_None:
  "exec U (tokenPattern t) r = None \<longleftrightarrow>
     (\<forall>i \<le> length r. \<not> (wordBoundary r i \<and> i + length (text_T t) \<le> length r
          \<and> (\<forall>j < length (text_T t). Canonicalize U (r ! (i + j)) = Canonicalize U (text_T t ! j))
          \<and> wordBoundary r (i + length (text_T t))))"
proof -
  have "matchAt U (tokenPattern t) r i = None \<longleftrightarrow>
       \<not> (wordBoundary r i \<and> i + length (text_T t) \<le> length r
          \<and> (\<forall>j < length (text_T t). Canonicalize U (r ! (i + j)) = Canonicalize U (text_T t ! j))
          \<and> wordBoundary r (i + length (text_T t)))" if "i \<le> length r" for i
    using matchAt_tokenPattern [OF that, of U t] by (simp split: if_splits)
  then show ?thesis unfolding exec_None_iff by blast
qed

section \<open>The first loop\<close>

text \<open>
  The invariant \<open>placeInv\<close> holds before the loop and is kept by every round, so the
  sorted placements are well placed and each ends before the next starts.
\<close>

lemma placeTokens_ids:
  "mset (map tokenId (snd (placeTokens U ts w ps))) \<subseteq># mset (map tokenId ps) + mset (map id_T ts)"
proof (induction ts arbitrary: w ps)
  case Nil
  then show ?case by simp
next
  case (Cons t ts)
  show ?case
  proof (cases "exec U (tokenPattern t) w")
    case None
    have "mset (map tokenId ps) + mset (map id_T ts) \<subseteq># mset (map tokenId ps) + mset (map id_T (t # ts))"
      by simp
    with Cons.IH [of w ps] None show ?thesis
      by (auto intro: subset_mset.order_trans)
  next
    case (Some m)
    obtain i mt where m: "m = (i, mt)" by (cases m)
    let ?w = "slice w 0 i @ repeat filler (i + length mt - i) @ slice_from w (i + length mt)"
    let ?ps = "ps @ [\<lparr>start = i, end_P = i + length mt, tokenId = id_T t\<rparr>]"
    have "snd (placeTokens U (t # ts) w ps) = snd (placeTokens U ts ?w ?ps)"
      using Some m by (simp add: Let_def)
    moreover have "mset (map tokenId ?ps) + mset (map id_T ts) = mset (map tokenId ps) + mset (map id_T (t # ts))"
      by simp
    ultimately show ?thesis
      using Cons.IH [of ?w ?ps] by simp
  qed
qed

lemma placeTokens_no_match:
  "(\<And>t. t \<in> set ts \<Longrightarrow> exec U (tokenPattern t) w = None) \<Longrightarrow> placeTokens U ts w ps = (w, ps)"
  by (induction ts) auto

lemma filler_not_word: "\<not> isWordChar filler"
  by (simp add: isWordChar_def filler_def)

lemma fillerFree_iff:
  assumes "\<And>c. Canonicalize U c = Canonicalize U filler \<Longrightarrow> c = filler"
  shows "fillerFree U ts \<longleftrightarrow> (\<forall>t \<in> set ts. filler \<notin> set (text_T t))"
  using assms by (auto simp: fillerFree_def)

lemma redact_length:
  "i + n \<le> length w \<Longrightarrow> length (slice w 0 i @ repeat filler n @ slice_from w (i + n)) = length w"
  by (simp add: length_slice slice_from_def repeat_def)

lemma redact_nth:
  assumes "i + n \<le> length w" and "k < length w"
  shows "(slice w 0 i @ repeat filler n @ slice_from w (i + n)) ! k
           = (if i \<le> k \<and> k < i + n then filler else w ! k)"
proof -
  have a: "slice w 0 i = take i w" using assms(1) by (simp add: slice_def Let_def min_def)
  have b: "slice_from w (i + n) = drop (i + n) w"
    using assms(1) by (simp add: slice_from_def slice_def Let_def min_def)
  show ?thesis
    using assms unfolding a b repeat_def
    by (auto simp: nth_append min_def)
qed

lemma boundary_before_word:
  "0 < i \<Longrightarrow> i \<le> length w \<Longrightarrow> isWordChar (w ! (i - 1)) \<Longrightarrow> \<exists>k < i. wordBoundary w k"
proof (induction i)
  case 0
  then show ?case by simp
next
  case (Suc j)
  show ?case
  proof (cases "0 < j \<and> isWordChar (w ! (j - 1))")
    case True
    with Suc have "\<exists>k < j. wordBoundary w k" by simp
    then show ?thesis using less_Suc_eq by auto
  next
    case False
    with Suc.prems have "wordBoundary w j"
      by (auto simp: wordBoundary_def IsWordCharBefore_def IsWordCharAt_def)
    then show ?thesis by blast
  qed
qed

lemma placeInv_skip: "placeInv U r all (t # rest) w ps \<Longrightarrow> placeInv U r all rest w ps"
  by (auto simp: placeInv_def)

lemma placeInv_step:
  assumes inv: "placeInv U r all (t # rest) w ps"
    and ex: "exec U (tokenPattern t) w = Some (i, m)"
  shows "placeInv U r all rest
           (slice w 0 i @ repeat filler (i + length m - i) @ slice_from w (i + length m))
           (ps @ [\<lparr>start = i, end_P = i + length m, tokenId = id_T t\<rparr>])"
proof -
  let ?n = "length (text_T t)"
  let ?q = "\<lparr>start = i, end_P = i + ?n, tokenId = id_T t\<rparr>"
  let ?w = "slice w 0 i @ repeat filler ?n @ slice_from w (i + ?n)"
  from exec_tokenPattern [OF ex] have
    lm: "length m = ?n" and fit: "i + ?n \<le> length w" and bi: "wordBoundary w i"
    and ce: "\<forall>j < ?n. Canonicalize U (w ! (i + j)) = Canonicalize U (text_T t ! j)"
    and left: "text_T t = [] \<longrightarrow> (\<forall>k < i. \<not> wordBoundary w k)" by auto
  from inv have lw: "length w = length r"
    and old: "\<forall>p \<in> set ps. wellPlaced U r all p
             \<and> (\<forall>k. start p \<le> k \<and> k < end_P p \<longrightarrow> w ! k = filler)
             \<and> (\<forall>t' \<in> set (t # rest). length (text_T t') \<le> end_P p - start p)"
    and cov: "\<forall>k < length r. w ! k = r ! k \<or> (\<exists>p \<in> set ps. start p \<le> k \<and> k < end_P p)"
    and sep: "sorted_wrt separate ps"
    and srt: "sorted_wrt (\<lambda>a b. length (text_T b) \<le> length (text_T a)) (t # rest)"
    and sub: "set (t # rest) \<subseteq> set all"
    and nf: "\<forall>t' \<in> set (t # rest). \<forall>c \<in> set (text_T t'). Canonicalize U c \<noteq> Canonicalize U filler"
    by (auto simp: placeInv_def)
  have nofill: "w ! (i + j) \<noteq> filler" if "j < ?n" for j
  proof
    assume "w ! (i + j) = filler"
    with ce that have "Canonicalize U (text_T t ! j) = Canonicalize U filler" by auto
    moreover have "text_T t ! j \<in> set (text_T t)" using that by simp
    ultimately show False using nf by auto
  qed
  have same: "w ! (i + j) = r ! (i + j)" if "j < ?n" for j
  proof -
    have "i + j < length r" using that fit lw by simp
    with cov have "w ! (i + j) = r ! (i + j) \<or> (\<exists>p \<in> set ps. start p \<le> i + j \<and> i + j < end_P p)"
      by blast
    moreover have "\<not> (\<exists>p \<in> set ps. start p \<le> i + j \<and> i + j < end_P p)"
      using old nofill [OF that] by blast
    ultimately show ?thesis by blast
  qed
  have wq: "wellPlaced U r all ?q"
  proof -
    have "map (Canonicalize U) (text_T t) = map (Canonicalize U) (slice r i (i + ?n))"
    proof (rule nth_equalityI)
      show "length (map (Canonicalize U) (text_T t)) = length (map (Canonicalize U) (slice r i (i + ?n)))"
        using fit lw by (simp add: length_slice)
    next
      fix j assume "j < length (map (Canonicalize U) (text_T t))"
      then have j: "j < ?n" by simp
      then have "slice r i (i + ?n) ! j = r ! (i + j)"
        using fit lw by (simp add: nth_slice)
      moreover have "Canonicalize U (text_T t ! j) = Canonicalize U (r ! (i + j))"
        using ce j same [OF j] by metis
      ultimately show "map (Canonicalize U) (text_T t) ! j = map (Canonicalize U) (slice r i (i + ?n)) ! j"
        using j fit lw by (simp add: length_slice)
    qed
    moreover have "t \<in> set all" using sub by simp
    ultimately show ?thesis
      using fit lw unfolding wellPlaced_def by auto
  qed
  have sepq: "separate p ?q" if p: "p \<in> set ps" for p
  proof -
    from old p have fill: "\<And>k. start p \<le> k \<Longrightarrow> k < end_P p \<Longrightarrow> w ! k = filler"
      and len: "?n \<le> end_P p - start p"
      and pin: "end_P p \<le> length r" by (auto simp: wellPlaced_def)
    have one: "end_P p \<le> i" if sp: "start p \<le> i"
    proof (rule ccontr)
      assume "\<not> end_P p \<le> i"
      then have ie: "i < end_P p" by simp
      with sp have wi: "w ! i = filler" by (rule fill)
      show False
      proof (cases "?n = 0")
        case False
        then have "w ! (i + 0) \<noteq> filler" by (intro nofill) simp
        with wi show False by simp
      next
        case True
        then have emp: "text_T t = []" by simp
        have "\<not> IsWordCharAt w i"
          using wi filler_not_word by (simp add: IsWordCharAt_def)
        with bi have "IsWordCharBefore w i" by (simp add: wordBoundary_def)
        then have "0 < i" "i \<le> length w" "isWordChar (w ! (i - 1))"
          by (auto simp: IsWordCharBefore_def)
        from boundary_before_word [OF this] obtain k where "k < i" "wordBoundary w k" by blast
        with left emp show False by blast
      qed
    qed
    have two: "i + ?n \<le> start p" if ip: "i \<le> start p"
    proof (rule ccontr)
      assume "\<not> i + ?n \<le> start p"
      then have lt: "start p < i + ?n" by simp
      then have j: "start p - i < ?n" using ip by simp
      have "start p < end_P p" using len lt ip by simp
      then have "w ! start p = filler" by (intro fill) simp_all
      moreover have "w ! (i + (start p - i)) \<noteq> filler" using j by (rule nofill)
      ultimately show False using ip by simp
    qed
    show ?thesis using one two by (simp add: separate_def)
  qed
  have inv': "placeInv U r all rest ?w (ps @ [?q])"
    unfolding placeInv_def
  proof (intro conjI)
    show "length ?w = length r" using redact_length [OF fit] lw by simp
    show "\<forall>p \<in> set (ps @ [?q]). wellPlaced U r all p
             \<and> (\<forall>k. start p \<le> k \<and> k < end_P p \<longrightarrow> ?w ! k = filler)
             \<and> (\<forall>t' \<in> set rest. length (text_T t') \<le> end_P p - start p)"
    proof
      fix p assume "p \<in> set (ps @ [?q])"
      then consider "p \<in> set ps" | "p = ?q" by auto
      then show "wellPlaced U r all p
             \<and> (\<forall>k. start p \<le> k \<and> k < end_P p \<longrightarrow> ?w ! k = filler)
             \<and> (\<forall>t' \<in> set rest. length (text_T t') \<le> end_P p - start p)"
      proof cases
        case 1
        with old have a: "wellPlaced U r all p"
          and b: "\<And>k. start p \<le> k \<Longrightarrow> k < end_P p \<Longrightarrow> w ! k = filler"
          and c: "\<forall>t' \<in> set rest. length (text_T t') \<le> end_P p - start p" by auto
        have "?w ! k = filler" if "start p \<le> k" "k < end_P p" for k
        proof -
          have "k < length w" using that a lw by (simp add: wellPlaced_def)
          then show ?thesis using redact_nth [OF fit] b [OF that] by simp
        qed
        with a c show ?thesis by blast
      next
        case 2
        have "?w ! k = filler" if "i \<le> k" "k < i + ?n" for k
        proof -
          have "k < length w" using that fit by simp
          then show ?thesis using redact_nth [OF fit] that by simp
        qed
        moreover have "\<forall>t' \<in> set rest. length (text_T t') \<le> ?n" using srt by simp
        ultimately show ?thesis using wq 2 by simp
      qed
    qed
    show "\<forall>k < length r. ?w ! k = r ! k \<or> (\<exists>p \<in> set (ps @ [?q]). start p \<le> k \<and> k < end_P p)"
    proof (intro allI impI)
      fix k assume k: "k < length r"
      then have kw: "k < length w" using lw by simp
      show "?w ! k = r ! k \<or> (\<exists>p \<in> set (ps @ [?q]). start p \<le> k \<and> k < end_P p)"
      proof (cases "i \<le> k \<and> k < i + ?n")
        case True
        then show ?thesis by auto
      next
        case False
        then have "?w ! k = w ! k" using redact_nth [OF fit kw] by auto
        with cov k show ?thesis by auto
      qed
    qed
    show "sorted_wrt separate (ps @ [?q])"
      using sep sepq by (simp add: sorted_wrt_append)
    show "sorted_wrt (\<lambda>a b. length (text_T b) \<le> length (text_T a)) rest" using srt by simp
    show "set rest \<subseteq> set all" using sub by simp
    show "\<forall>t' \<in> set rest. \<forall>c \<in> set (text_T t'). Canonicalize U c \<noteq> Canonicalize U filler"
      using nf by simp
  qed
  then show ?thesis by (simp add: lm)
qed

lemma placeTokens_inv:
  "placeInv U r all rest w ps \<Longrightarrow>
   placeInv U r all [] (fst (placeTokens U rest w ps)) (snd (placeTokens U rest w ps))"
proof (induction rest arbitrary: w ps)
  case Nil
  then show ?case by simp
next
  case (Cons t rest)
  show ?case
  proof (cases "exec U (tokenPattern t) w")
    case None
    with Cons.IH [OF placeInv_skip [OF Cons.prems]] show ?thesis by simp
  next
    case (Some a)
    obtain i m where a: "a = (i, m)" by (cases a)
    from Cons.IH [OF placeInv_step [OF Cons.prems Some [unfolded a]]] Some a
    show ?thesis by (simp add: Let_def)
  qed
qed

lemma separate_sym: "separate a b \<Longrightarrow> separate b a"
  by (auto simp: separate_def)

lemma chain_of_separate:
  "sorted_wrt separate ps \<Longrightarrow> sorted_wrt (\<lambda>a b. start a \<le> start b) ps
   \<Longrightarrow> sorted_wrt (\<lambda>a b. end_P a \<le> start b) ps"
  by (induction ps) (auto simp: separate_def)

lemma placeInv_initial:
  assumes "\<forall>t \<in> set ts. \<forall>c \<in> set (text_T t). Canonicalize U c \<noteq> Canonicalize U filler"
  shows "placeInv U r ts (sort_by byLengthDesc ts) r []"
  using assms by (simp add: placeInv_def sorted_byLengthDesc set_sort_by)

lemma sortedPlacements_props:
  assumes "\<forall>t \<in> set ts. \<forall>c \<in> set (text_T t). Canonicalize U c \<noteq> Canonicalize U filler"
  shows "\<forall>p \<in> set (sortedPlacements U r ts). wellPlaced U r ts p"
    and "sorted_wrt (\<lambda>a b. end_P a \<le> start b) (sortedPlacements U r ts)"
proof -
  let ?ps = "snd (placeTokens U (sort_by byLengthDesc ts) r [])"
  from placeTokens_inv [OF placeInv_initial [OF assms]]
  have inv: "placeInv U r ts [] (fst (placeTokens U (sort_by byLengthDesc ts) r [])) ?ps" .
  then have w: "\<forall>p \<in> set ?ps. wellPlaced U r ts p" and s: "sorted_wrt separate ?ps"
    by (auto simp: placeInv_def)
  show "\<forall>p \<in> set (sortedPlacements U r ts). wellPlaced U r ts p"
    using w by (simp add: sortedPlacements_def set_sort_by)
  have "sorted_wrt separate (sort_by byStart ?ps)"
    using s separate_sym by (rule sorted_wrt_sort_by_sym)
  then show "sorted_wrt (\<lambda>a b. end_P a \<le> start b) (sortedPlacements U r ts)"
    unfolding sortedPlacements_def using sorted_byStart by (rule chain_of_separate)
qed

lemma sortedPlacements_empty_raw: "sortedPlacements U [] ts = []"
proof -
  have "exec U (tokenPattern t) [] = None" for t
    by (simp add: exec_tokenPattern_None wordBoundary_def IsWordCharBefore_def IsWordCharAt_def)
  then have "placeTokens U (sort_by byLengthDesc ts) [] [] = ([], [])"
    by (intro placeTokens_no_match) simp
  then show ?thesis by (simp add: sortedPlacements_def sort_by_def)
qed

lemma sortedPlacements_no_tokens: "sortedPlacements U r [] = []"
  by (simp add: sortedPlacements_def sort_by_def)

section \<open>The second loop\<close>

text \<open>
  The spans erase to the segments of \<open>segmentPrompt\<close>, tile the raw text and fit it, and
  their token ranges are the placements.
\<close>

lemma emitSpans_acc:
  "emitSpans r ps cur acc = (fst (emitSpans r ps cur []), acc @ snd (emitSpans r ps cur []))"
proof (induction ps arbitrary: cur acc)
  case Nil
  show ?case by simp
next
  case (Cons p ps)
  show ?case
    by (simp add: Let_def) (metis Cons.IH append.assoc append_Nil fst_conv snd_conv)
qed

lemma emitSegments_erase:
  "emitSegments r ps cur (map (snd \<circ> snd) acc)
     = (fst (emitSpans r ps cur acc), map (snd \<circ> snd) (snd (emitSpans r ps cur acc)))"
proof (induction ps arbitrary: cur acc)
  case Nil
  show ?case by simp
next
  case (Cons p ps)
  show ?case
  proof (cases "cur < start p")
    case True
    then show ?thesis
      using Cons.IH [of "end_P p" "acc @ [(cur, start p, Text_seg (slice r cur (start p))),
                                           (start p, end_P p, Token_seg (tokenId p))]"]
      by (simp add: Let_def)
  next
    case False
    then show ?thesis
      using Cons.IH [of "end_P p" "acc @ [(start p, end_P p, Token_seg (tokenId p))]"]
      by (simp add: Let_def)
  qed
qed

lemma segmentSpans_erase: "map (snd \<circ> snd) (segmentSpans U r ts) = segmentPrompt U r ts"
proof -
  have e: "emitSegments r ps 0 [] = (fst (emitSpans r ps 0 []), map (snd \<circ> snd) (snd (emitSpans r ps 0 [])))" for ps
    using emitSegments_erase [of r ps 0 "[]"] by simp
  show ?thesis
    by (simp add: segmentSpans_def segmentPrompt_def e Let_def case_prod_beta)
qed

lemma tiling_append: "tiling a b xs \<Longrightarrow> tiling b c ys \<Longrightarrow> tiling a c (xs @ ys)"
  by (induction xs arbitrary: a) auto

lemma tiling_le: "tiling a b xs \<Longrightarrow> a \<le> b"
  by (induction xs arbitrary: a) fastforce+

lemma emitSpans_tiling:
  assumes "sorted_wrt (\<lambda>a b. end_P a \<le> start b) ps"
    and "\<forall>p \<in> set ps. cur \<le> start p \<and> start p \<le> end_P p \<and> end_P p \<le> n"
    and "cur \<le> n"
  shows "tiling cur (fst (emitSpans r ps cur [])) (snd (emitSpans r ps cur []))
         \<and> fst (emitSpans r ps cur []) \<le> n
         \<and> (\<forall>sp \<in> set (snd (emitSpans r ps cur [])). spanFits r ps sp)"
  using assms
proof (induction ps arbitrary: cur)
  case Nil
  then show ?case by simp
next
  case (Cons p ps)
  let ?head = "(if start p > cur then [(cur, start p, Text_seg (slice r cur (start p)))] else [])
                @ [(start p, end_P p, Token_seg (tokenId p))]"
  have u: "emitSpans r (p # ps) cur [] = (fst (emitSpans r ps (end_P p) []), ?head @ snd (emitSpans r ps (end_P p) []))"
  proof (cases "cur < start p")
    case True
    then show ?thesis
      using emitSpans_acc [of r ps "end_P p" "[(cur, start p, Text_seg (slice r cur (start p))),
                                               (start p, end_P p, Token_seg (tokenId p))]"]
      by (simp add: Let_def)
  next
    case False
    then show ?thesis
      using emitSpans_acc [of r ps "end_P p" "[(start p, end_P p, Token_seg (tokenId p))]"]
      by (simp add: Let_def)
  qed
  from Cons.prems have p: "cur \<le> start p" "start p \<le> end_P p" "end_P p \<le> n" by auto
  have "sorted_wrt (\<lambda>a b. end_P a \<le> start b) ps" using Cons.prems(1) by simp
  moreover have "\<forall>q \<in> set ps. end_P p \<le> start q \<and> start q \<le> end_P q \<and> end_P q \<le> n"
    using Cons.prems(1,2) by auto
  ultimately have ih: "tiling (end_P p) (fst (emitSpans r ps (end_P p) [])) (snd (emitSpans r ps (end_P p) []))"
      "fst (emitSpans r ps (end_P p) []) \<le> n"
      "\<forall>sp \<in> set (snd (emitSpans r ps (end_P p) [])). spanFits r ps sp"
    using Cons.IH [of "end_P p"] p(3) by auto
  have h: "tiling cur (end_P p) ?head" using p by auto
  have f1: "\<forall>sp \<in> set ?head. spanFits r (p # ps) sp" by auto
  have f2: "spanFits r (p # ps) sp" if "spanFits r ps sp" for sp
  proof -
    obtain lo hi seg where "sp = (lo, hi, seg)" by (cases sp) auto
    with that show ?thesis by (cases seg) auto
  qed
  show ?case
    unfolding u using tiling_append [OF h ih(1)] ih(2) ih(3) f1 f2 by auto
qed

lemma segmentSpans_tiling:
  assumes "fillerFree U ts"
  shows "tiling 0 (length r) (segmentSpans U r ts)"
    and "\<forall>sp \<in> set (segmentSpans U r ts). spanFits r (sortedPlacements U r ts) sp"
proof -
  let ?ps = "sortedPlacements U r ts"
  let ?c = "fst (emitSpans r ?ps 0 [])"
  let ?sp = "snd (emitSpans r ?ps 0 [])"
  from assms have nf: "\<forall>t \<in> set ts. \<forall>c \<in> set (text_T t). Canonicalize U c \<noteq> Canonicalize U filler"
    by (simp add: fillerFree_def)
  have ch: "sorted_wrt (\<lambda>a b. end_P a \<le> start b) ?ps"
    using nf by (rule sortedPlacements_props)
  have "\<forall>p \<in> set ?ps. wellPlaced U r ts p"
    using nf by (rule sortedPlacements_props)
  then have wf: "\<forall>p \<in> set ?ps. 0 \<le> start p \<and> start p \<le> end_P p \<and> end_P p \<le> length r"
    by (simp add: wellPlaced_def)
  from emitSpans_tiling [OF ch wf] have
    t: "tiling 0 ?c ?sp" and c: "?c \<le> length r" and f: "\<forall>sp \<in> set ?sp. spanFits r ?ps sp"
    by auto
  let ?sp' = "if ?c < length r then ?sp @ [(?c, length r, Text_seg (slice_from r ?c))] else ?sp"
  have t': "tiling 0 (length r) ?sp'"
  proof (cases "?c < length r")
    case True
    have "tiling ?c (length r) [(?c, length r, Text_seg (slice_from r ?c))]" using c by simp
    with t True show ?thesis using tiling_append by auto
  next
    case False
    with c have "?c = length r" by simp
    with t False show ?thesis by simp
  qed
  have f': "\<forall>sp \<in> set ?sp'. spanFits r ?ps sp"
    using f by (auto simp: slice_from_def)
  have whole: "tiling 0 (length r) [(0, length r, Text_seg r)]"
      "spanFits r ?ps (0, length r, Text_seg r)"
    by (simp_all add: slice_full)
  have s: "segmentSpans U r ts =
      (if r = [] then [] else if ts = [] then [(0, length r, Text_seg r)]
       else if ?sp' \<noteq> [] then ?sp' else [(0, length r, Text_seg r)])"
    by (simp add: segmentSpans_def Let_def case_prod_beta)
  show "tiling 0 (length r) (segmentSpans U r ts)"
    unfolding s using t' whole(1) by simp
  show "\<forall>sp \<in> set (segmentSpans U r ts). spanFits r ?ps sp"
    unfolding s using f' whole(2) by simp
qed

lemma covers_none: "tiling a b sps \<Longrightarrow> x < a \<Longrightarrow> filter (covers x) sps = []"
proof (induction sps arbitrary: a)
  case Nil
  show ?case by simp
next
  case (Cons sp sps)
  obtain lo hi seg where sp: "sp = (lo, hi, seg)" by (cases sp) auto
  with Cons.prems have "lo = a" "lo \<le> hi" "tiling hi b sps" by auto
  then have "filter (covers x) sps = []" using Cons.IH [of hi] Cons.prems(2) by simp
  moreover have "\<not> covers x sp" using Cons.prems(2) \<open>lo = a\<close> sp by (simp add: covers_def)
  ultimately show ?case by simp
qed

lemma covers_once: "tiling a b sps \<Longrightarrow> a \<le> x \<Longrightarrow> x < b \<Longrightarrow> length (filter (covers x) sps) = 1"
proof (induction sps arbitrary: a)
  case Nil
  then show ?case by simp
next
  case (Cons sp sps)
  obtain lo hi seg where sp: "sp = (lo, hi, seg)" by (cases sp) auto
  with Cons.prems have t: "lo = a" "lo \<le> hi" "tiling hi b sps" by auto
  show ?case
  proof (cases "x < hi")
    case True
    with covers_none [OF t(3)] have "filter (covers x) sps = []" by simp
    moreover have "covers x sp" using True t Cons.prems(2) sp by (simp add: covers_def)
    ultimately show ?thesis by simp
  next
    case False
    with Cons.IH [OF t(3)] Cons.prems(3) have "length (filter (covers x) sps) = 1" by simp
    moreover have "\<not> covers x sp" using False sp by (simp add: covers_def)
    ultimately show ?thesis by simp
  qed
qed

lemma chain_disjoint:
  assumes "sorted_wrt (\<lambda>a b. end_P a \<le> start b) ps"
    and "i < length ps" and "j < length ps" and "i \<noteq> j"
  shows "{start (ps ! i)..<end_P (ps ! i)} \<inter> {start (ps ! j)..<end_P (ps ! j)} = {}"
proof (cases "i < j")
  case True
  with assms have "end_P (ps ! i) \<le> start (ps ! j)" by (simp add: sorted_wrt_iff_nth_less)
  then show ?thesis by auto
next
  case False
  with assms have "j < i" by simp
  with assms have "end_P (ps ! j) \<le> start (ps ! i)" by (simp add: sorted_wrt_iff_nth_less)
  then show ?thesis by auto
qed

lemma placedRanges_append: "placedRanges (xs @ ys) = placedRanges xs @ placedRanges ys"
  by (induction xs rule: placedRanges.induct) auto

lemma emitSpans_placed: "placedRanges (snd (emitSpans r ps cur [])) = ps"
proof (induction ps arbitrary: cur)
  case Nil
  show ?case by simp
next
  case (Cons p ps)
  show ?case
  proof (cases "cur < start p")
    case True
    then show ?thesis
      using emitSpans_acc [of r ps "end_P p" "[(cur, start p, Text_seg (slice r cur (start p))),
                                               (start p, end_P p, Token_seg (tokenId p))]"]
        Cons.IH [of "end_P p"]
      by (simp add: Let_def placedRanges_append)
  next
    case False
    then show ?thesis
      using emitSpans_acc [of r ps "end_P p" "[(start p, end_P p, Token_seg (tokenId p))]"]
        Cons.IH [of "end_P p"]
      by (simp add: Let_def placedRanges_append)
  qed
qed

lemma segmentSpans_placed: "placedRanges (segmentSpans U r ts) = sortedPlacements U r ts"
proof (cases "r = [] \<or> ts = []")
  case True
  then show ?thesis
    by (auto simp: segmentSpans_def sortedPlacements_empty_raw sortedPlacements_no_tokens)
next
  case False
  let ?ps = "sortedPlacements U r ts"
  let ?c = "fst (emitSpans r ?ps 0 [])"
  let ?sp = "snd (emitSpans r ?ps 0 [])"
  let ?sp' = "if ?c < length r then ?sp @ [(?c, length r, Text_seg (slice_from r ?c))] else ?sp"
  have p: "placedRanges ?sp' = ?ps"
    by (simp add: placedRanges_append emitSpans_placed)
  have s: "segmentSpans U r ts = (if ?sp' \<noteq> [] then ?sp' else [(0, length r, Text_seg r)])"
    using False by (simp add: segmentSpans_def Let_def case_prod_beta)
  show ?thesis
  proof (cases "?sp' = []")
    case True
    with p have "?ps = []" by (simp only: placedRanges.simps)
    with True s show ?thesis by simp
  next
    case False
    with s p show ?thesis by simp
  qed
qed

section \<open>The rebuild\<close>

lemma new_Map_snoc: "new_Map (es @ [(k, v)]) = (new_Map es)(k \<mapsto> v)"
  by (simp add: new_Map_def)

lemma buildRaw_append:
  "buildRawFromSegments (xs @ ys) m = buildRawFromSegments xs m @ buildRawFromSegments ys m"
  by (simp add: buildRawFromSegments_def)

lemma tokenIndex_snoc: "tokenIndex (ts @ [x]) = (tokenIndex ts)(id_T x \<mapsto> x)"
  by (simp add: tokenIndex_def new_Map_snoc)

lemma tokenIndex_distinct:
  "distinct (map id_T ts) \<Longrightarrow> t \<in> set ts \<Longrightarrow> tokenIndex ts (id_T t) = Some t"
proof (induction ts rule: rev_induct)
  case Nil
  then show ?case by simp
next
  case (snoc x ts)
  show ?case
  proof (cases "t = x")
    case True
    then show ?thesis by (simp add: tokenIndex_snoc)
  next
    case False
    with snoc.prems have t: "t \<in> set ts" by simp
    then have "id_T t \<in> id_T ` set ts" by (rule imageI)
    moreover have "id_T x \<notin> id_T ` set ts" using snoc.prems(1) by simp
    ultimately have "id_T t \<noteq> id_T x" by metis
    with snoc t show ?thesis by (simp add: tokenIndex_snoc)
  qed
qed

lemma tiling_concat:
  assumes "tiling a b sps" and "b \<le> length r"
    and "\<forall>sp \<in> set sps. map h (resolve m (snd (snd sp))) = map h (slice r (fst sp) (fst (snd sp)))"
  shows "map h (concat (map (\<lambda>sp. resolve m (snd (snd sp))) sps)) = map h (slice r a b)"
  using assms
proof (induction sps arbitrary: a)
  case Nil
  then show ?case by (simp add: slice_empty)
next
  case (Cons sp sps)
  obtain lo hi seg where sp: "sp = (lo, hi, seg)" by (cases sp) auto
  with Cons.prems have t: "lo = a" "a \<le> hi" "tiling hi b sps" by auto
  from tiling_le [OF t(3)] have hb: "hi \<le> b" .
  have "map h (concat (map (\<lambda>sp. resolve m (snd (snd sp))) sps)) = map h (slice r hi b)"
    using Cons.IH [OF t(3)] Cons.prems(2,3) by simp
  moreover have "map h (resolve m seg) = map h (slice r a hi)"
    using Cons.prems(3) sp t(1) by simp
  ultimately have "map h (concat (map (\<lambda>sp. resolve m (snd (snd sp))) (sp # sps)))
      = map h (slice r a hi @ slice r hi b)"
    using sp by simp
  then show ?case using slice_append [OF t(2) hb Cons.prems(2)] by simp
qed

lemma buildRaw_spans:
  "buildRawFromSegments (segmentPrompt U r ts) m
     = concat (map (\<lambda>sp. resolve m (snd (snd sp))) (segmentSpans U r ts))"
  using segmentSpans_erase [of U r ts, symmetric]
  by (simp add: buildRawFromSegments_def comp_def)

section \<open>The replace operation\<close>

lemma replaceToken_doc:
  "promptDoc st = Some doc \<Longrightarrow>
   promptDoc (replaceToken st i n)
     = Some \<lparr>raw = buildRawFromSegments (segments st)
                     (tokenIndex (map (\<lambda>token. if id_T token = i then token\<lparr>text_T := n\<rparr> else token) (tokens doc))),
             tokens = map (\<lambda>token. if id_T token = i then token\<lparr>text_T := n\<rparr> else token) (tokens doc)\<rparr>"
  by (simp add: replaceToken_def tokenIndex_def Let_def)

lemma replaceToken_segments: "segments (replaceToken st i n) = segments st"
  by (simp add: replaceToken_def Let_def split: option.splits)

lemma replaceToken_openTokenId:
  "promptDoc st = Some doc \<Longrightarrow> openTokenId (replaceToken st i n) = None"
  by (simp add: replaceToken_def Let_def)

lemma replaceToken_absent: "promptDoc st = None \<Longrightarrow> replaceToken st i n = st"
  by (simp add: replaceToken_def)

lemma update_unknown_id:
  "i \<notin> id_T ` set ts \<Longrightarrow> map (\<lambda>token. if id_T token = i then token\<lparr>text_T := n\<rparr> else token) ts = ts"
  by (induction ts) auto

lemma update_own_text:
  assumes "distinct (map id_T ts)" and "t \<in> set ts"
  shows "map (\<lambda>token. if id_T token = id_T t then token\<lparr>text_T := text_T t\<rparr> else token) ts = ts"
proof (rule map_idI)
  fix x assume x: "x \<in> set ts"
  show "(if id_T x = id_T t then x\<lparr>text_T := text_T t\<rparr> else x) = x"
  proof (cases "id_T x = id_T t")
    case True
    have "inj_on id_T (set ts)" using assms(1) by (simp add: distinct_map)
    then have "x = t" using x assms(2) True by (auto dest: inj_onD)
    then show ?thesis by simp
  next
    case False
    then show ?thesis by simp
  qed
qed

section \<open>The fallback extractor and the module state\<close>

text \<open>
  The texts and the alternatives of the extracted tokens do not depend on the module
  state; the role of a token is the answer of \<open>inferRole\<close> in the state the call finds.
\<close>

lemma uid_lastIndex: "lastIndex (snd (uid now g)) = lastIndex g"
  by (simp add: uid_def Let_def)

lemma inferRole_lastIndex:
  assumes "lastIndex g = lastIndex g'"
  shows "fst (inferRole U g s) = fst (inferRole U g' s)"
    and "lastIndex (snd (inferRole U g s)) = lastIndex (snd (inferRole U g' s))"
  using assms by (auto simp: inferRole_def split: prod.splits option.splits)

lemma makeToken_text: "found_text (fst (makeToken U L now g t)) = t"
  by (simp add: makeToken_def split: prod.splits)

lemma makeToken_alts: "found_alts (fst (makeToken U L now g t)) = getDefaultAlternatives L t"
  by (simp add: makeToken_def split: prod.splits)

lemma makeToken_role: "found_role (fst (makeToken U L now g t)) = fst (inferRole U g t)"
proof -
  obtain i g1 where u: "uid now g = (i, g1)" by (cases "uid now g")
  then have "lastIndex g1 = lastIndex g" using uid_lastIndex [of now g] by simp
  from inferRole_lastIndex(1) [OF this, of U t] u show ?thesis
    by (simp add: makeToken_def case_prod_beta)
qed

lemma makeToken_lastIndex:
  "lastIndex (snd (makeToken U L now g t)) = lastIndex (snd (inferRole U g t))"
proof -
  obtain i g1 where u: "uid now g = (i, g1)" by (cases "uid now g")
  then have "lastIndex g1 = lastIndex g" using uid_lastIndex [of now g] by simp
  from inferRole_lastIndex(2) [OF this, of U t] u show ?thesis
    by (simp add: makeToken_def case_prod_beta)
qed

lemma cinematic_terms:
  "filter (includes_s (toLowerCase L (js ''cinematic''))) commonTerms = [js ''cinematic'']"
  by (simp add: commonTerms_def toLowerCase_def js_def)

lemma termLoop_filter:
  "termLoop U L now p ts g acc
     = foldl (\<lambda>(acc, g) t. case makeToken U L now g t of (token, g') \<Rightarrow> (acc @ [token], g'))
         (acc, g) (filter (includes_s (toLowerCase L p)) ts)"
  by (induction ts arbitrary: g acc) (auto split: prod.splits)

lemma extract_cinematic:
  "extractFallbackTokens U L now g (js ''cinematic'')
     = ([fst (makeToken U L now g (js ''cinematic''))], snd (makeToken U L now g (js ''cinematic'')))"
proof -
  have t: "termLoop U L now (js ''cinematic'') commonTerms g []
           = ([fst (makeToken U L now g (js ''cinematic''))], snd (makeToken U L now g (js ''cinematic'')))"
    by (simp add: termLoop_filter cinematic_terms split: prod.splits)
  have w: "split_spaces (toLowerCase L (js ''cinematic'')) = [js ''cinematic'']"
    by (simp add: split_spaces_def toLowerCase_def js_def isSpace_def whiteSpace_def)
  have s: "take 6 (filter (\<lambda>word. length word > 4 \<and> word \<notin> set stopWords) [js ''cinematic''])
           = [js ''cinematic'']"
    by (simp add: stopWords_def js_def)
  have i: "includes_s (toLowerCase L (js ''cinematic'')) (js ''cinematic'')"
    by (simp add: toLowerCase_def js_def)
  show ?thesis
    by (simp add: extractFallbackTokens_def Let_def t w s i makeToken_text)
qed

lemma inferRole_cinematic_first:
  "lastIndex g = [0, 0, 0, 0] \<Longrightarrow>
   fst (inferRole U g (js ''cinematic'')) = mood
   \<and> lastIndex (snd (inferRole U g (js ''cinematic''))) = [0, 9, 0, 0]"
  by (simp add: inferRole_def KEYWORD_ROLE_def testGlobal_def lit_def js_def matchRegExp_def
      matchAlternatives_def Canonicalize_def upt_rec)

lemma inferRole_cinematic_second:
  "lastIndex g = [0, 9, 0, 0] \<Longrightarrow>
   fst (inferRole U g (js ''cinematic'')) = descriptor
   \<and> lastIndex (snd (inferRole U g (js ''cinematic''))) = [0, 0, 0, 0]"
  by (simp add: inferRole_def KEYWORD_ROLE_def testGlobal_def test_def lit_def js_def matchRegExp_def
      matchAlternatives_def Canonicalize_def upt_rec wordBoundary_def IsWordCharBefore_def
      IsWordCharAt_def isWordChar_def)

lemma termLoop_texts_alts:
  "map found_text (fst (termLoop U L now p ts g acc))
     = map found_text acc @ filter (includes_s (toLowerCase L p)) ts
   \<and> map found_alts (fst (termLoop U L now p ts g acc))
     = map found_alts acc @ map (getDefaultAlternatives L) (filter (includes_s (toLowerCase L p)) ts)"
proof (induction ts arbitrary: g acc)
  case Nil
  show ?case by simp
next
  case (Cons t ts)
  show ?case
  proof (cases "includes_s (toLowerCase L p) t")
    case True
    obtain token g' where m: "makeToken U L now g t = (token, g')" by (cases "makeToken U L now g t")
    then have "found_text token = t" "found_alts token = getDefaultAlternatives L t"
      using makeToken_text [of U L now g t] makeToken_alts [of U L now g t] by simp_all
    with True m Cons.IH [of g' "acc @ [token]"] show ?thesis by simp
  next
    case False
    with Cons.IH [of g acc] show ?thesis by simp
  qed
qed

lemma wordLoop_texts_alts:
  assumes "map found_text acc = map found_text acc'" and "map found_alts acc = map found_alts acc'"
  shows "map found_text (fst (wordLoop U L now ws g acc)) = map found_text (fst (wordLoop U' L now' ws g' acc'))
       \<and> map found_alts (fst (wordLoop U L now ws g acc)) = map found_alts (fst (wordLoop U' L now' ws g' acc'))"
  using assms
proof (induction ws arbitrary: g g' acc acc')
  case Nil
  then show ?case by simp
next
  case (Cons w ws)
  have c: "list_ex (\<lambda>token. includes_s (toLowerCase L (found_text token)) w) xs
           \<longleftrightarrow> (\<exists>t \<in> set (map found_text xs). includes_s (toLowerCase L t) w)" for xs
    by (auto simp: list_ex_iff)
  show ?case
  proof (cases "list_ex (\<lambda>token. includes_s (toLowerCase L (found_text token)) w) acc")
    case True
    then have "list_ex (\<lambda>token. includes_s (toLowerCase L (found_text token)) w) acc'"
      unfolding c Cons.prems(1) .
    with True Cons.IH [OF Cons.prems, of g g'] show ?thesis by simp
  next
    case False
    then have f': "\<not> list_ex (\<lambda>token. includes_s (toLowerCase L (found_text token)) w) acc'"
      unfolding c Cons.prems(1) .
    obtain token g1 where m: "makeToken U L now g w = (token, g1)" by (cases "makeToken U L now g w")
    obtain token' g1' where m': "makeToken U' L now' g' w = (token', g1')" by (cases "makeToken U' L now' g' w")
    have "found_text token = w" "found_alts token = getDefaultAlternatives L w"
      using m makeToken_text [of U L now g w] makeToken_alts [of U L now g w] by simp_all
    moreover have "found_text token' = w" "found_alts token' = getDefaultAlternatives L w"
      using m' makeToken_text [of U' L now' g' w] makeToken_alts [of U' L now' g' w] by simp_all
    ultimately have "map found_text (acc @ [token]) = map found_text (acc' @ [token'])"
      and "map found_alts (acc @ [token]) = map found_alts (acc' @ [token'])"
      using Cons.prems by simp_all
    from Cons.IH [OF this, of g1 g1'] False f' m m' show ?thesis by simp
  qed
qed

lemma fallback_texts_alts_deterministic:
  "map found_text (fst (extractFallbackTokens U L now g p))
     = map found_text (fst (extractFallbackTokens U' L now' g' p))
   \<and> map found_alts (fst (extractFallbackTokens U L now g p))
     = map found_alts (fst (extractFallbackTokens U' L now' g' p))"
proof -
  let ?ws = "take 6 (filter (\<lambda>word. length word > 4 \<and> word \<notin> set stopWords) (split_spaces (toLowerCase L p)))"
  let ?a = "termLoop U L now p commonTerms g []"
  let ?a' = "termLoop U' L now' p commonTerms g' []"
  have t: "map found_text (fst ?a) = map found_text (fst ?a')" "map found_alts (fst ?a) = map found_alts (fst ?a')"
    by (simp_all add: termLoop_texts_alts)
  from wordLoop_texts_alts [OF t, where ws = ?ws and g = "snd ?a" and g' = "snd ?a'"
      and U = U and U' = U' and now = now and now' = now' and L = L]
  have "map found_text (fst (wordLoop U L now ?ws (snd ?a) (fst ?a)))
          = map found_text (fst (wordLoop U' L now' ?ws (snd ?a') (fst ?a')))"
    and "map found_alts (fst (wordLoop U L now ?ws (snd ?a) (fst ?a)))
          = map found_alts (fst (wordLoop U' L now' ?ws (snd ?a') (fst ?a')))"
    by simp_all
  then show ?thesis
    by (simp add: extractFallbackTokens_def Let_def case_prod_beta flip: take_map)
qed

section \<open>The claims\<close>

subsection \<open>C1\<close>

text \<open>
  Claim C1, as the code has it. When the token ids are pairwise distinct and no token
  text has a code unit matching the filler, the concatenation of the resolved segments
  equals the raw text up to case: both have the same length and agree position by
  position under the case folding of the search. It is the raw text itself when every
  placed token's stored text is the very range of the raw text it was placed on.
\<close>

theorem reconstruction_up_to_case:
  assumes d: "distinct (map id_T ts)" and ff: "fillerFree U ts"
  shows "map (Canonicalize U) (buildRawFromSegments (segmentPrompt U r ts) (tokenIndex ts))
           = map (Canonicalize U) r
       \<and> ((\<forall>p \<in> set (sortedPlacements U r ts). \<forall>t \<in> set ts.
              id_T t = tokenId p \<longrightarrow> text_T t = slice r (start p) (end_P p))
            \<longrightarrow> buildRawFromSegments (segmentPrompt U r ts) (tokenIndex ts) = r)"
proof
  let ?ps = "sortedPlacements U r ts"
  let ?sp = "segmentSpans U r ts"
  from ff have nf: "\<forall>t \<in> set ts. \<forall>c \<in> set (text_T t). Canonicalize U c \<noteq> Canonicalize U filler"
    by (simp add: fillerFree_def)
  have wp: "\<forall>p \<in> set ?ps. wellPlaced U r ts p"
    using nf by (rule sortedPlacements_props)
  have t: "tiling 0 (length r) ?sp" using ff by (rule segmentSpans_tiling)
  have f: "\<forall>sp \<in> set ?sp. spanFits r ?ps sp" using ff by (rule segmentSpans_tiling)
  have agree: "map (Canonicalize U) (resolve (tokenIndex ts) (snd (snd sp)))
                 = map (Canonicalize U) (slice r (fst sp) (fst (snd sp)))"
    if "sp \<in> set ?sp" for sp
  proof -
    obtain lo hi seg where sp: "sp = (lo, hi, seg)" by (cases sp) auto
    from f that sp have fit: "spanFits r ?ps (lo, hi, seg)" by blast
    show ?thesis
    proof (cases seg)
      case (Text_seg v)
      with fit sp show ?thesis by (simp add: resolve_def)
    next
      case (Token_seg i)
      with fit have "\<lparr>start = lo, end_P = hi, tokenId = i\<rparr> \<in> set ?ps" by simp
      with wp have "wellPlaced U r ts \<lparr>start = lo, end_P = hi, tokenId = i\<rparr>" by blast
      then obtain tk where tk: "tk \<in> set ts" "id_T tk = i"
          "map (Canonicalize U) (text_T tk) = map (Canonicalize U) (slice r lo hi)"
        by (auto simp: wellPlaced_def)
      from tokenIndex_distinct [OF d tk(1)] tk(2) have "tokenIndex ts i = Some tk" by simp
      with tk(3) Token_seg sp show ?thesis by (simp add: resolve_def)
    qed
  qed
  have "map (Canonicalize U) (concat (map (\<lambda>sp. resolve (tokenIndex ts) (snd (snd sp))) ?sp))
          = map (Canonicalize U) (slice r 0 (length r))"
    using t _ agree by (rule tiling_concat [rule_format]) simp_all
  then show "map (Canonicalize U) (buildRawFromSegments (segmentPrompt U r ts) (tokenIndex ts))
           = map (Canonicalize U) r"
    by (simp add: buildRaw_spans slice_full)
  show "(\<forall>p \<in> set ?ps. \<forall>t \<in> set ts. id_T t = tokenId p \<longrightarrow> text_T t = slice r (start p) (end_P p))
            \<longrightarrow> buildRawFromSegments (segmentPrompt U r ts) (tokenIndex ts) = r"
  proof
    assume ex: "\<forall>p \<in> set ?ps. \<forall>t \<in> set ts. id_T t = tokenId p \<longrightarrow> text_T t = slice r (start p) (end_P p)"
    have exact: "map (\<lambda>c. c) (resolve (tokenIndex ts) (snd (snd sp)))
                 = map (\<lambda>c. c) (slice r (fst sp) (fst (snd sp)))"
      if "sp \<in> set ?sp" for sp
    proof -
      obtain lo hi seg where sp: "sp = (lo, hi, seg)" by (cases sp) auto
      from f that sp have fit: "spanFits r ?ps (lo, hi, seg)" by blast
      show ?thesis
      proof (cases seg)
        case (Text_seg v)
        with fit sp show ?thesis by (simp add: resolve_def)
      next
        case (Token_seg i)
        with fit have p: "\<lparr>start = lo, end_P = hi, tokenId = i\<rparr> \<in> set ?ps" by simp
        with wp have "wellPlaced U r ts \<lparr>start = lo, end_P = hi, tokenId = i\<rparr>" by blast
        then obtain tk where tk: "tk \<in> set ts" "id_T tk = i"
          by (auto simp: wellPlaced_def)
        from ex p tk have "text_T tk = slice r lo hi" by force
        moreover from tokenIndex_distinct [OF d tk(1)] tk(2) have "tokenIndex ts i = Some tk" by simp
        ultimately show ?thesis using Token_seg sp by (simp add: resolve_def)
      qed
    qed
    have "map (\<lambda>c. c) (concat (map (\<lambda>sp. resolve (tokenIndex ts) (snd (snd sp))) ?sp))
          = map (\<lambda>c. c) (slice r 0 (length r))"
      using t _ exact by (rule tiling_concat [rule_format]) simp_all
    then show "buildRawFromSegments (segmentPrompt U r ts) (tokenIndex ts) = r"
      by (simp add: buildRaw_spans slice_full)
  qed
qed

theorem reconstruction_up_to_case_witness:
  "distinct (map id_T [sampleToken ''t1'' ''blue''])
   \<and> fillerFree (\<lambda>c. c) [sampleToken ''t1'' ''blue'']
   \<and> map (Canonicalize (\<lambda>c. c))
        (buildRawFromSegments (segmentPrompt (\<lambda>c. c) (js ''a Blue sky'') [sampleToken ''t1'' ''blue''])
           (tokenIndex [sampleToken ''t1'' ''blue'']))
       = map (Canonicalize (\<lambda>c. c)) (js ''a Blue sky'')
   \<and> sortedPlacements (\<lambda>c. c) (js ''a blue sky'') [sampleToken ''t1'' ''blue'']
       = [\<lparr>start = 2, end_P = 6, tokenId = js ''t1''\<rparr>]
   \<and> text_T (sampleToken ''t1'' ''blue'') = slice (js ''a blue sky'') 2 6
   \<and> buildRawFromSegments (segmentPrompt (\<lambda>c. c) (js ''a blue sky'') [sampleToken ''t1'' ''blue''])
        (tokenIndex [sampleToken ''t1'' ''blue'']) = js ''a blue sky''"
proof -
  let ?ts = "[sampleToken ''t1'' ''blue'']"
  have d: "distinct (map id_T ?ts)" by simp
  have h: "fillerFree (\<lambda>c. c) ?ts" by code_simp
  have p: "sortedPlacements (\<lambda>c. c) (js ''a blue sky'') ?ts = [\<lparr>start = 2, end_P = 6, tokenId = js ''t1''\<rparr>]"
    by code_simp
  have e: "text_T (sampleToken ''t1'' ''blue'') = slice (js ''a blue sky'') 2 6"
    by code_simp
  have ex: "\<forall>p \<in> set (sortedPlacements (\<lambda>c. c) (js ''a blue sky'') ?ts). \<forall>t \<in> set ?ts.
              id_T t = tokenId p \<longrightarrow> text_T t = slice (js ''a blue sky'') (start p) (end_P p)"
    unfolding p using e by simp
  from reconstruction_up_to_case [OF d h, of "js ''a Blue sky''"]
  have a: "map (Canonicalize (\<lambda>c. c))
        (buildRawFromSegments (segmentPrompt (\<lambda>c. c) (js ''a Blue sky'') ?ts) (tokenIndex ?ts))
       = map (Canonicalize (\<lambda>c. c)) (js ''a Blue sky'')" by blast
  from reconstruction_up_to_case [OF d h, of "js ''a blue sky''"] ex
  have b: "buildRawFromSegments (segmentPrompt (\<lambda>c. c) (js ''a blue sky'') ?ts) (tokenIndex ?ts)
             = js ''a blue sky''" by blast
  from d h a p e b show ?thesis by blast
qed

text \<open>
  Claim C1 as stated fails: the token "blue" is placed on "Blue" in "a Blue sky", and the
  segments resolve to "a blue sky".
\<close>

theorem reconstruction_changes_case:
  "buildRawFromSegments (segmentPrompt (\<lambda>c. c) (js ''a Blue sky'') [sampleToken ''t1'' ''blue''])
     (tokenIndex [sampleToken ''t1'' ''blue'']) = js ''a blue sky''
   \<and> js ''a blue sky'' \<noteq> js ''a Blue sky''"
proof -
  have "buildRawFromSegments (segmentPrompt (\<lambda>c. c) (js ''a Blue sky'') [sampleToken ''t1'' ''blue''])
     (tokenIndex [sampleToken ''t1'' ''blue'']) = js ''a blue sky''"
    by code_simp
  moreover have "js ''a blue sky'' \<noteq> js ''a Blue sky''" by (simp add: js_def)
  ultimately show ?thesis by simp
qed

subsection \<open>C2\<close>

text \<open>
  Claim C2, as the code has it. When no token text has a code unit matching the filler,
  every placement lies inside the raw text, the ranges of two different placements
  have no position in common, and the emitted segments tile the raw text: each segment
  stands for a range, the ranges follow one another from 0 to the length of the raw
  text, a literal holds the raw text of its range, the ranges of the token segments
  are in order the placements, and every position of the raw text lies in the range
  of exactly one segment.
\<close>

theorem segmentation_partition:
  assumes "fillerFree U ts"
  shows "(\<forall>p \<in> set (sortedPlacements U r ts). start p \<le> end_P p \<and> end_P p \<le> length r)
       \<and> (\<forall>i < length (sortedPlacements U r ts). \<forall>j < length (sortedPlacements U r ts). i \<noteq> j \<longrightarrow>
            {start (sortedPlacements U r ts ! i)..<end_P (sortedPlacements U r ts ! i)}
              \<inter> {start (sortedPlacements U r ts ! j)..<end_P (sortedPlacements U r ts ! j)} = {})
       \<and> map (snd \<circ> snd) (segmentSpans U r ts) = segmentPrompt U r ts
       \<and> tiling 0 (length r) (segmentSpans U r ts)
       \<and> (\<forall>sp \<in> set (segmentSpans U r ts). spanFits r (sortedPlacements U r ts) sp)
       \<and> placedRanges (segmentSpans U r ts) = sortedPlacements U r ts
       \<and> (\<forall>x < length r. length (filter (covers x) (segmentSpans U r ts)) = 1)"
proof -
  from assms have nf: "\<forall>t \<in> set ts. \<forall>c \<in> set (text_T t). Canonicalize U c \<noteq> Canonicalize U filler"
    by (simp add: fillerFree_def)
  have ch: "sorted_wrt (\<lambda>a b. end_P a \<le> start b) (sortedPlacements U r ts)"
    using nf by (rule sortedPlacements_props)
  have "\<forall>p \<in> set (sortedPlacements U r ts). wellPlaced U r ts p"
    using nf by (rule sortedPlacements_props)
  then have a: "\<forall>p \<in> set (sortedPlacements U r ts). start p \<le> end_P p \<and> end_P p \<le> length r"
    by (simp add: wellPlaced_def)
  have b: "\<forall>i < length (sortedPlacements U r ts). \<forall>j < length (sortedPlacements U r ts). i \<noteq> j \<longrightarrow>
            {start (sortedPlacements U r ts ! i)..<end_P (sortedPlacements U r ts ! i)}
              \<inter> {start (sortedPlacements U r ts ! j)..<end_P (sortedPlacements U r ts ! j)} = {}"
    using chain_disjoint [OF ch] by blast
  have t: "tiling 0 (length r) (segmentSpans U r ts)"
    using assms by (rule segmentSpans_tiling)
  have f: "\<forall>sp \<in> set (segmentSpans U r ts). spanFits r (sortedPlacements U r ts) sp"
    using assms by (rule segmentSpans_tiling)
  have c: "\<forall>x < length r. length (filter (covers x) (segmentSpans U r ts)) = 1"
    using covers_once [OF t] by simp
  from a b segmentSpans_erase [of U r ts] t f segmentSpans_placed [of U r ts] c
  show ?thesis by blast
qed

theorem segmentation_partition_witness:
  "fillerFree (\<lambda>c. c) [sampleToken ''t1'' ''blue'']
   \<and> sortedPlacements (\<lambda>c. c) (js ''a blue sky'') [sampleToken ''t1'' ''blue'']
       = [\<lparr>start = 2, end_P = 6, tokenId = js ''t1''\<rparr>]
   \<and> segmentSpans (\<lambda>c. c) (js ''a blue sky'') [sampleToken ''t1'' ''blue'']
       = [(0, 2, Text_seg (js ''a '')), (2, 6, Token_seg (js ''t1'')), (6, 10, Text_seg (js '' sky''))]
   \<and> map (snd \<circ> snd) (segmentSpans (\<lambda>c. c) (js ''a blue sky'') [sampleToken ''t1'' ''blue''])
       = segmentPrompt (\<lambda>c. c) (js ''a blue sky'') [sampleToken ''t1'' ''blue'']
   \<and> tiling 0 (length (js ''a blue sky'')) (segmentSpans (\<lambda>c. c) (js ''a blue sky'') [sampleToken ''t1'' ''blue''])
   \<and> length (filter (covers 3) (segmentSpans (\<lambda>c. c) (js ''a blue sky'') [sampleToken ''t1'' ''blue''])) = 1"
proof -
  let ?ts = "[sampleToken ''t1'' ''blue'']"
  let ?r = "js ''a blue sky''"
  have h: "fillerFree (\<lambda>c. c) ?ts" by code_simp
  have p: "sortedPlacements (\<lambda>c. c) ?r ?ts = [\<lparr>start = 2, end_P = 6, tokenId = js ''t1''\<rparr>]"
    by code_simp
  have s: "segmentSpans (\<lambda>c. c) ?r ?ts
       = [(0, 2, Text_seg (js ''a '')), (2, 6, Token_seg (js ''t1'')), (6, 10, Text_seg (js '' sky''))]"
    by code_simp
  have l: "(3::nat) < length ?r" by (simp add: js_def)
  from segmentation_partition [OF h, of ?r] l
  have "map (snd \<circ> snd) (segmentSpans (\<lambda>c. c) ?r ?ts) = segmentPrompt (\<lambda>c. c) ?r ?ts"
    and "tiling 0 (length ?r) (segmentSpans (\<lambda>c. c) ?r ?ts)"
    and "length (filter (covers 3) (segmentSpans (\<lambda>c. c) ?r ?ts)) = 1"
    by blast+
  with h p s show ?thesis by blast
qed

text \<open>
  Claim C2 as stated fails when a token text contains the filler: for the raw text
  "x y" and the tokens " " and the filler character (both of length 1, searched in
  this order), the first is placed on the range from 1 to 2, which is redacted to the
  filler, and the second then matches that same range between the two letters.
\<close>

theorem placements_overlap:
  "sortedPlacements (\<lambda>c. c) (js ''x y'') [sampleToken ''t1'' '' '', fillerToken ''t2'']
     = [\<lparr>start = 1, end_P = 2, tokenId = js ''t1''\<rparr>, \<lparr>start = 1, end_P = 2, tokenId = js ''t2''\<rparr>]
   \<and> {start (sortedPlacements (\<lambda>c. c) (js ''x y'') [sampleToken ''t1'' '' '', fillerToken ''t2''] ! 0)
        ..< end_P (sortedPlacements (\<lambda>c. c) (js ''x y'') [sampleToken ''t1'' '' '', fillerToken ''t2''] ! 0)}
      \<inter> {start (sortedPlacements (\<lambda>c. c) (js ''x y'') [sampleToken ''t1'' '' '', fillerToken ''t2''] ! 1)
        ..< end_P (sortedPlacements (\<lambda>c. c) (js ''x y'') [sampleToken ''t1'' '' '', fillerToken ''t2''] ! 1)}
      \<noteq> {}
   \<and> segmentPrompt (\<lambda>c. c) (js ''x y'') [sampleToken ''t1'' '' '', fillerToken ''t2'']
     = [Text_seg (js ''x''), Token_seg (js ''t1''), Token_seg (js ''t2''), Text_seg (js ''y'')]"
proof -
  have p: "sortedPlacements (\<lambda>c. c) (js ''x y'') [sampleToken ''t1'' '' '', fillerToken ''t2'']
     = [\<lparr>start = 1, end_P = 2, tokenId = js ''t1''\<rparr>, \<lparr>start = 1, end_P = 2, tokenId = js ''t2''\<rparr>]"
    by code_simp
  have s: "segmentPrompt (\<lambda>c. c) (js ''x y'') [sampleToken ''t1'' '' '', fillerToken ''t2'']
     = [Text_seg (js ''x''), Token_seg (js ''t1''), Token_seg (js ''t2''), Text_seg (js ''y'')]"
    by code_simp
  show ?thesis unfolding p using s by simp
qed

subsection \<open>C3\<close>

text \<open>
  Claim C3. For the raw text "a category" and the two tokens "cat" and "category", in
  either input order and whatever their ids, roles and alternatives, the segmentation is
  the literal "a " followed by the token segment of "category"; the only placement is
  the range from 2 to 10 of that token, so "cat" is not placed.
\<close>

theorem overlap_longest_first:
  "segmentPrompt U (js ''a category'')
     [\<lparr>id_T = i1, text_T = js ''cat'', role = r1, alts = a1\<rparr>,
      \<lparr>id_T = i2, text_T = js ''category'', role = r2, alts = a2\<rparr>]
     = [Text_seg (js ''a ''), Token_seg i2]
   \<and> segmentPrompt U (js ''a category'')
     [\<lparr>id_T = i2, text_T = js ''category'', role = r2, alts = a2\<rparr>,
      \<lparr>id_T = i1, text_T = js ''cat'', role = r1, alts = a1\<rparr>]
     = [Text_seg (js ''a ''), Token_seg i2]
   \<and> sortedPlacements U (js ''a category'')
     [\<lparr>id_T = i1, text_T = js ''cat'', role = r1, alts = a1\<rparr>,
      \<lparr>id_T = i2, text_T = js ''category'', role = r2, alts = a2\<rparr>]
     = [\<lparr>start = 2, end_P = 10, tokenId = i2\<rparr>]
   \<and> sortedPlacements U (js ''a category'')
     [\<lparr>id_T = i2, text_T = js ''category'', role = r2, alts = a2\<rparr>,
      \<lparr>id_T = i1, text_T = js ''cat'', role = r1, alts = a1\<rparr>]
     = [\<lparr>start = 2, end_P = 10, tokenId = i2\<rparr>]"
  by code_simp

theorem overlap_longest_first_witness:
  "segmentPrompt (\<lambda>c. c) (js ''a category'') [sampleToken ''t1'' ''cat'', sampleToken ''t2'' ''category'']
     = [Text_seg (js ''a ''), Token_seg (js ''t2'')]
   \<and> segmentPrompt (\<lambda>c. c) (js ''a category'') [sampleToken ''t2'' ''category'', sampleToken ''t1'' ''cat'']
     = [Text_seg (js ''a ''), Token_seg (js ''t2'')]"
  using overlap_longest_first [where U = "\<lambda>c. c" and ?i1.0 = "js ''t1''" and ?r1.0 = descriptor
      and ?a1.0 = "[]" and ?i2.0 = "js ''t2''" and ?r2.0 = descriptor and ?a2.0 = "[]"]
  by (simp add: sampleToken_def)

subsection \<open>C4\<close>

text \<open>
  Claim C4. For the raw text "red cat, red dog, red bird" and one token "red" the
  segmentation is the token segment followed by one literal holding the rest, with its
  two further occurrences of "red"; the only placement is the range from 0 to 3. In
  general every token receives at most one placement: counted with multiplicity, the
  token ids of the placements are among the ids of the tokens.
\<close>

theorem first_occurrence_only:
  "segmentPrompt U (js ''red cat, red dog, red bird'')
     [\<lparr>id_T = i, text_T = js ''red'', role = r, alts = a\<rparr>]
     = [Token_seg i, Text_seg (js '' cat, red dog, red bird'')]
   \<and> sortedPlacements U (js ''red cat, red dog, red bird'')
     [\<lparr>id_T = i, text_T = js ''red'', role = r, alts = a\<rparr>]
     = [\<lparr>start = 0, end_P = 3, tokenId = i\<rparr>]
   \<and> mset (map tokenId (sortedPlacements U raw' ts)) \<subseteq># mset (map id_T ts)"
proof -
  have "mset (map tokenId (sortedPlacements U raw' ts))
         = mset (map tokenId (snd (placeTokens U (sort_by byLengthDesc ts) raw' [])))"
    unfolding sortedPlacements_def by (metis mset_map mset_sort_by)
  also have "\<dots> \<subseteq># mset (map id_T (sort_by byLengthDesc ts))"
    using placeTokens_ids [of U "sort_by byLengthDesc ts" raw' "[]"] by simp
  also have "\<dots> = mset (map id_T ts)"
    by (simp add: mset_sort_by)
  finally have g: "mset (map tokenId (sortedPlacements U raw' ts)) \<subseteq># mset (map id_T ts)" .
  have c1: "segmentPrompt U (js ''red cat, red dog, red bird'')
     [\<lparr>id_T = i, text_T = js ''red'', role = r, alts = a\<rparr>]
     = [Token_seg i, Text_seg (js '' cat, red dog, red bird'')]"
    by code_simp
  have c2: "sortedPlacements U (js ''red cat, red dog, red bird'')
     [\<lparr>id_T = i, text_T = js ''red'', role = r, alts = a\<rparr>]
     = [\<lparr>start = 0, end_P = 3, tokenId = i\<rparr>]"
    by code_simp
  from c1 c2 g show ?thesis by blast
qed

theorem first_occurrence_only_witness:
  "segmentPrompt (\<lambda>c. c) (js ''red cat, red dog, red bird'') [sampleToken ''t1'' ''red'']
     = [Token_seg (js ''t1''), Text_seg (js '' cat, red dog, red bird'')]
   \<and> mset (map tokenId (sortedPlacements (\<lambda>c. c) (js ''red cat, red dog, red bird'')
                            [sampleToken ''t1'' ''red'']))
       \<subseteq># mset (map id_T [sampleToken ''t1'' ''red''])"
  using first_occurrence_only [where U = "\<lambda>c. c" and i = "js ''t1''" and r = descriptor
      and a = "[]" and raw' = "js ''red cat, red dog, red bird''" and ts = "[sampleToken ''t1'' ''red'']"]
  by (simp add: sampleToken_def)

subsection \<open>C5\<close>

text \<open>
  Claim C5. (a) The empty raw text gives the empty segment sequence, whatever the tokens.
  (b) A non-empty raw text with no tokens gives the single literal segment of the whole
  text. (c) So does a non-empty raw text with tokens none of whose patterns is found
  in it, that is, whose text occurs at no index of the raw text between two word
  boundaries, compared case-insensitively (lemma \<open>exec_tokenPattern_None\<close>).
\<close>

theorem segmentPrompt_degenerate:
  "segmentPrompt U [] ts = []
   \<and> (r \<noteq> [] \<longrightarrow> segmentPrompt U r [] = [Text_seg r])
   \<and> (r \<noteq> [] \<and> (\<forall>t \<in> set ts. exec U (tokenPattern t) r = None)
        \<longrightarrow> segmentPrompt U r ts = [Text_seg r])"
proof (intro conjI impI)
  show "segmentPrompt U [] ts = []" by (simp add: segmentPrompt_def)
  show "segmentPrompt U r [] = [Text_seg r]" if "r \<noteq> []"
    using that by (simp add: segmentPrompt_def)
  show "segmentPrompt U r ts = [Text_seg r]"
    if h: "r \<noteq> [] \<and> (\<forall>t \<in> set ts. exec U (tokenPattern t) r = None)"
  proof -
    have "placeTokens U (sort_by byLengthDesc ts) r [] = (r, [])"
      using h by (intro placeTokens_no_match) (simp add: set_sort_by)
    then have "sortedPlacements U r ts = []"
      by (simp add: sortedPlacements_def sort_by_def)
    then show ?thesis
      using h by (simp add: segmentPrompt_def slice_from_0)
  qed
qed

theorem segmentPrompt_degenerate_witness:
  "js ''a blue sky'' \<noteq> []
   \<and> exec (\<lambda>c. c) (tokenPattern (sampleToken ''t1'' ''red'')) (js ''a blue sky'') = None
   \<and> segmentPrompt (\<lambda>c. c) [] [sampleToken ''t1'' ''red''] = []
   \<and> segmentPrompt (\<lambda>c. c) (js ''a blue sky'') [] = [Text_seg (js ''a blue sky'')]
   \<and> segmentPrompt (\<lambda>c. c) (js ''a blue sky'') [sampleToken ''t1'' ''red'']
       = [Text_seg (js ''a blue sky'')]"
proof -
  let ?t = "sampleToken ''t1'' ''red''"
  have h1: "js ''a blue sky'' \<noteq> []" by (simp add: js_def)
  have h2: "exec (\<lambda>c. c) (tokenPattern ?t) (js ''a blue sky'') = None" by code_simp
  show ?thesis
    using h1 h2 segmentPrompt_degenerate [of "\<lambda>c. c" "[?t]" "js ''a blue sky''"] by simp
qed

subsection \<open>C6\<close>

text \<open>
  Claim C6, as the code has it. With no document the call changes nothing at all. With
  a document and a token id that occurs in none of its tokens, the token list stays as
  it is and the segment sequence is untouched, but the raw text is written anew: it
  becomes the rebuild of the current segments under the unchanged tokens. The document
  is therefore the same after the call exactly when its raw text already was that
  rebuild. The id of the open menu is reset to null by the same call.
\<close>

theorem replaceToken_unknown:
  "(promptDoc st = None \<longrightarrow> replaceToken st i n = st)
   \<and> (promptDoc st = Some doc \<and> i \<notin> id_T ` set (tokens doc) \<longrightarrow>
        promptDoc (replaceToken st i n)
          = Some \<lparr>raw = buildRawFromSegments (segments st) (tokenIndex (tokens doc)),
                  tokens = tokens doc\<rparr>
        \<and> segments (replaceToken st i n) = segments st
        \<and> openTokenId (replaceToken st i n) = None
        \<and> (promptDoc (replaceToken st i n) = promptDoc st
             \<longleftrightarrow> raw doc = buildRawFromSegments (segments st) (tokenIndex (tokens doc))))"
proof (intro conjI impI)
  show "replaceToken st i n = st" if "promptDoc st = None"
    using that by (rule replaceToken_absent)
next
  assume h: "promptDoc st = Some doc \<and> i \<notin> id_T ` set (tokens doc)"
  then have u: "map (\<lambda>token. if id_T token = i then token\<lparr>text_T := n\<rparr> else token) (tokens doc) = tokens doc"
    by (simp add: update_unknown_id)
  show d: "promptDoc (replaceToken st i n)
          = Some \<lparr>raw = buildRawFromSegments (segments st) (tokenIndex (tokens doc)),
                  tokens = tokens doc\<rparr>"
    using h replaceToken_doc [of st doc i n] by (simp add: u)
  show "segments (replaceToken st i n) = segments st"
    by (rule replaceToken_segments)
  show "openTokenId (replaceToken st i n) = None"
    using h by (simp add: replaceToken_openTokenId)
  have "(\<lparr>raw = buildRawFromSegments (segments st) (tokenIndex (tokens doc)), tokens = tokens doc\<rparr> = doc)
        \<longleftrightarrow> raw doc = buildRawFromSegments (segments st) (tokenIndex (tokens doc))"
    by (cases doc) auto
  then show "promptDoc (replaceToken st i n) = promptDoc st
             \<longleftrightarrow> raw doc = buildRawFromSegments (segments st) (tokenIndex (tokens doc))"
    using h d by simp
qed

theorem replaceToken_unknown_witness:
  "promptDoc initialState = None
   \<and> replaceToken initialState (js ''zz'') (js ''x'') = initialState
   \<and> promptDoc (storePrompt (\<lambda>c. c) (js ''a blue sky'') [sampleToken ''t1'' ''blue''] initialState)
       = Some \<lparr>raw = js ''a blue sky'', tokens = [sampleToken ''t1'' ''blue'']\<rparr>
   \<and> js ''zz'' \<notin> id_T ` set (tokens \<lparr>raw = js ''a blue sky'', tokens = [sampleToken ''t1'' ''blue'']\<rparr>)
   \<and> promptDoc (replaceToken
        (storePrompt (\<lambda>c. c) (js ''a blue sky'') [sampleToken ''t1'' ''blue''] initialState)
        (js ''zz'') (js ''x''))
       = Some \<lparr>raw = js ''a blue sky'', tokens = [sampleToken ''t1'' ''blue'']\<rparr>
   \<and> promptDoc ((storePrompt (\<lambda>c. c) (js ''a blue sky'') [sampleToken ''t1'' ''blue''] initialState)
                  \<lparr>openTokenId := Some (js ''t1'')\<rparr>)
       = Some \<lparr>raw = js ''a blue sky'', tokens = [sampleToken ''t1'' ''blue'']\<rparr>
   \<and> openTokenId (replaceToken
        ((storePrompt (\<lambda>c. c) (js ''a blue sky'') [sampleToken ''t1'' ''blue''] initialState)
           \<lparr>openTokenId := Some (js ''t1'')\<rparr>)
        (js ''zz'') (js ''x'')) = None"
proof -
  let ?doc = "\<lparr>raw = js ''a blue sky'', tokens = [sampleToken ''t1'' ''blue'']\<rparr>"
  let ?st = "storePrompt (\<lambda>c. c) (js ''a blue sky'') [sampleToken ''t1'' ''blue''] initialState"
  let ?open = "?st\<lparr>openTokenId := Some (js ''t1'')\<rparr>"
  have h0: "promptDoc initialState = None" by (simp add: initialState_def)
  have h3: "promptDoc ?open = Some ?doc" by (simp add: storePrompt_def)
  have h1: "promptDoc ?st = Some ?doc" by (simp add: storePrompt_def)
  have h2: "js ''zz'' \<notin> id_T ` set (tokens ?doc)" by (simp add: sampleToken_def js_def)
  have s: "segments ?st = [Text_seg (js ''a ''), Token_seg (js ''t1''), Text_seg (js '' sky'')]"
    unfolding storePrompt_def by (simp, code_simp)
  have r: "buildRawFromSegments (segments ?st) (tokenIndex (tokens ?doc)) = js ''a blue sky''"
    unfolding s by code_simp
  from replaceToken_unknown [of initialState "js ''zz''" "js ''x''" ?doc] h0
  have a: "replaceToken initialState (js ''zz'') (js ''x'') = initialState" by blast
  from replaceToken_unknown [of ?st "js ''zz''" "js ''x''" ?doc] h1 h2
  have b: "promptDoc (replaceToken ?st (js ''zz'') (js ''x''))
        = Some \<lparr>raw = buildRawFromSegments (segments ?st) (tokenIndex (tokens ?doc)), tokens = tokens ?doc\<rparr>"
    by blast
  from replaceToken_unknown [of ?open "js ''zz''" "js ''x''" ?doc] h3 h2
  have c: "openTokenId (replaceToken ?open (js ''zz'') (js ''x'')) = None" by blast
  show ?thesis
    using h0 h1 h2 h3 a b c r by simp
qed

text \<open>
  Claim C6 as stated fails: the prompt "a Blue sky" is stored with the token "blue" (the
  search ignores case, so the token is placed on "Blue"); a call with an id that names
  no token rewrites the raw text to "a blue sky".
\<close>

theorem replaceToken_unknown_changes_raw:
  "promptDoc (storePrompt (\<lambda>c. c) (js ''a Blue sky'') [sampleToken ''t1'' ''blue''] initialState)
       = Some \<lparr>raw = js ''a Blue sky'', tokens = [sampleToken ''t1'' ''blue'']\<rparr>
   \<and> js ''zz'' \<notin> id_T ` set [sampleToken ''t1'' ''blue'']
   \<and> promptDoc (replaceToken
        (storePrompt (\<lambda>c. c) (js ''a Blue sky'') [sampleToken ''t1'' ''blue''] initialState)
        (js ''zz'') (js ''x''))
       = Some \<lparr>raw = js ''a blue sky'', tokens = [sampleToken ''t1'' ''blue'']\<rparr>
   \<and> js ''a blue sky'' \<noteq> js ''a Blue sky''"
proof -
  let ?st = "storePrompt (\<lambda>c. c) (js ''a Blue sky'') [sampleToken ''t1'' ''blue''] initialState"
  have h1: "promptDoc ?st = Some \<lparr>raw = js ''a Blue sky'', tokens = [sampleToken ''t1'' ''blue'']\<rparr>"
    by (simp add: storePrompt_def)
  have h2: "js ''zz'' \<notin> id_T ` set [sampleToken ''t1'' ''blue'']" by (simp add: sampleToken_def js_def)
  have s: "segments ?st = [Text_seg (js ''a ''), Token_seg (js ''t1''), Text_seg (js '' sky'')]"
    unfolding storePrompt_def by (simp, code_simp)
  have r: "buildRawFromSegments [Text_seg (js ''a ''), Token_seg (js ''t1''), Text_seg (js '' sky'')]
             (tokenIndex [sampleToken ''t1'' ''blue'']) = js ''a blue sky''"
    by code_simp
  have u: "map (\<lambda>token. if id_T token = js ''zz'' then token\<lparr>text_T := js ''x''\<rparr> else token) [sampleToken ''t1'' ''blue'']
           = [sampleToken ''t1'' ''blue'']"
    using h2 by (rule update_unknown_id)
  have "promptDoc (replaceToken ?st (js ''zz'') (js ''x''))
       = Some \<lparr>raw = js ''a blue sky'', tokens = [sampleToken ''t1'' ''blue'']\<rparr>"
    using replaceToken_doc [OF h1, of "js ''zz''" "js ''x''"] by (simp only: u PromptDoc.simps s r)
  moreover have "js ''a blue sky'' \<noteq> js ''a Blue sky''" by (simp add: js_def)
  ultimately show ?thesis using h1 h2 by simp
qed

subsection \<open>C7\<close>

text \<open>
  Claim C7, as the code has it. For a document whose token ids are pairwise distinct and
  a token of it, replacing the token's text by that same text leaves the token list as
  it is and sets the raw text to the rebuild of the current segments under these
  tokens; so the document, raw text included, is unchanged whenever the raw text
  equalled that rebuild before the call.
\<close>

theorem replaceToken_own_text:
  assumes "promptDoc st = Some doc" and "distinct (map id_T (tokens doc))" and "t \<in> set (tokens doc)"
  shows "promptDoc (replaceToken st (id_T t) (text_T t))
           = Some \<lparr>raw = buildRawFromSegments (segments st) (tokenIndex (tokens doc)),
                   tokens = tokens doc\<rparr>
         \<and> (raw doc = buildRawFromSegments (segments st) (tokenIndex (tokens doc))
              \<longrightarrow> promptDoc (replaceToken st (id_T t) (text_T t)) = Some doc)"
proof -
  have d: "promptDoc (replaceToken st (id_T t) (text_T t))
           = Some \<lparr>raw = buildRawFromSegments (segments st) (tokenIndex (tokens doc)),
                   tokens = tokens doc\<rparr>"
    using replaceToken_doc [OF assms(1), of "id_T t" "text_T t"]
    by (simp add: update_own_text [OF assms(2,3)])
  moreover have "\<lparr>raw = raw doc, tokens = tokens doc\<rparr> = doc" by simp
  ultimately show ?thesis by (metis (lifting))
qed

theorem replaceToken_own_text_witness:
  "promptDoc (storePrompt (\<lambda>c. c) (js ''a blue sky'') [sampleToken ''t1'' ''blue''] initialState)
       = Some \<lparr>raw = js ''a blue sky'', tokens = [sampleToken ''t1'' ''blue'']\<rparr>
   \<and> distinct (map id_T [sampleToken ''t1'' ''blue''])
   \<and> sampleToken ''t1'' ''blue'' \<in> set [sampleToken ''t1'' ''blue'']
   \<and> js ''a blue sky'' = buildRawFromSegments
        (segments (storePrompt (\<lambda>c. c) (js ''a blue sky'') [sampleToken ''t1'' ''blue''] initialState))
        (tokenIndex [sampleToken ''t1'' ''blue''])
   \<and> promptDoc (replaceToken
        (storePrompt (\<lambda>c. c) (js ''a blue sky'') [sampleToken ''t1'' ''blue''] initialState)
        (js ''t1'') (js ''blue''))
       = Some \<lparr>raw = js ''a blue sky'', tokens = [sampleToken ''t1'' ''blue'']\<rparr>"
proof -
  let ?doc = "\<lparr>raw = js ''a blue sky'', tokens = [sampleToken ''t1'' ''blue'']\<rparr>"
  let ?st = "storePrompt (\<lambda>c. c) (js ''a blue sky'') [sampleToken ''t1'' ''blue''] initialState"
  have h1: "promptDoc ?st = Some ?doc" by (simp add: storePrompt_def)
  have h2: "distinct (map id_T (tokens ?doc))" by simp
  have h3: "sampleToken ''t1'' ''blue'' \<in> set (tokens ?doc)" by simp
  have s: "segments ?st = [Text_seg (js ''a ''), Token_seg (js ''t1''), Text_seg (js '' sky'')]"
    unfolding storePrompt_def by (simp, code_simp)
  have r: "js ''a blue sky'' = buildRawFromSegments (segments ?st) (tokenIndex [sampleToken ''t1'' ''blue''])"
    unfolding s by code_simp
  have i: "id_T (sampleToken ''t1'' ''blue'') = js ''t1''" "text_T (sampleToken ''t1'' ''blue'') = js ''blue''"
    by (simp_all add: sampleToken_def)
  show ?thesis
    using h1 h2 h3 r replaceToken_own_text [OF h1 h2 h3] by (simp add: i)
qed

text \<open>
  Claim C7 as stated fails on the same stored prompt: replacing the token "blue" by its
  own text turns the raw text "a Blue sky" into "a blue sky".
\<close>

theorem replaceToken_own_text_changes_raw:
  "promptDoc (storePrompt (\<lambda>c. c) (js ''a Blue sky'') [sampleToken ''t1'' ''blue''] initialState)
       = Some \<lparr>raw = js ''a Blue sky'', tokens = [sampleToken ''t1'' ''blue'']\<rparr>
   \<and> promptDoc (replaceToken
        (storePrompt (\<lambda>c. c) (js ''a Blue sky'') [sampleToken ''t1'' ''blue''] initialState)
        (id_T (sampleToken ''t1'' ''blue'')) (text_T (sampleToken ''t1'' ''blue'')))
       = Some \<lparr>raw = js ''a blue sky'', tokens = [sampleToken ''t1'' ''blue'']\<rparr>
   \<and> js ''a blue sky'' \<noteq> js ''a Blue sky''"
proof -
  let ?st = "storePrompt (\<lambda>c. c) (js ''a Blue sky'') [sampleToken ''t1'' ''blue''] initialState"
  have h1: "promptDoc ?st = Some \<lparr>raw = js ''a Blue sky'', tokens = [sampleToken ''t1'' ''blue'']\<rparr>"
    by (simp add: storePrompt_def)
  have s: "segments ?st = [Text_seg (js ''a ''), Token_seg (js ''t1''), Text_seg (js '' sky'')]"
    unfolding storePrompt_def by (simp, code_simp)
  have r: "buildRawFromSegments [Text_seg (js ''a ''), Token_seg (js ''t1''), Text_seg (js '' sky'')]
             (tokenIndex [sampleToken ''t1'' ''blue'']) = js ''a blue sky''"
    by code_simp
  have u: "map (\<lambda>token. if id_T token = id_T (sampleToken ''t1'' ''blue'')
                         then token\<lparr>text_T := text_T (sampleToken ''t1'' ''blue'')\<rparr> else token)
               [sampleToken ''t1'' ''blue''] = [sampleToken ''t1'' ''blue'']"
    by simp
  have "promptDoc (replaceToken ?st (id_T (sampleToken ''t1'' ''blue'')) (text_T (sampleToken ''t1'' ''blue'')))
       = Some \<lparr>raw = js ''a blue sky'', tokens = [sampleToken ''t1'' ''blue'']\<rparr>"
    using replaceToken_doc [OF h1, of "id_T (sampleToken ''t1'' ''blue'')" "text_T (sampleToken ''t1'' ''blue'')"]
    by (simp only: u PromptDoc.simps s r)
  moreover have "js ''a blue sky'' \<noteq> js ''a Blue sky''" by (simp add: js_def)
  ultimately show ?thesis using h1 by simp
qed

subsection \<open>C8\<close>

text \<open>
  Claim C8. With a document present and a token id that occurs in it, \<open>replaceToken\<close>
  keeps the token list's length and order; every token keeps its id, role and
  alternatives; a token with the given id gets the new text (and there is one); every
  other token is unchanged in all fields; the segment sequence is the same as before.
\<close>

theorem replaceToken_frame:
  assumes "promptDoc st = Some doc" and "i \<in> id_T ` set (tokens doc)"
  shows "\<exists>doc'. promptDoc (replaceToken st i n) = Some doc'
           \<and> length (tokens doc') = length (tokens doc)
           \<and> (\<forall>k < length (tokens doc).
                 id_T (tokens doc' ! k) = id_T (tokens doc ! k)
               \<and> role (tokens doc' ! k) = role (tokens doc ! k)
               \<and> alts (tokens doc' ! k) = alts (tokens doc ! k)
               \<and> (id_T (tokens doc ! k) = i \<longrightarrow> text_T (tokens doc' ! k) = n)
               \<and> (id_T (tokens doc ! k) \<noteq> i \<longrightarrow> tokens doc' ! k = tokens doc ! k))
           \<and> (\<exists>k < length (tokens doc). id_T (tokens doc' ! k) = i \<and> text_T (tokens doc' ! k) = n)
           \<and> segments (replaceToken st i n) = segments st"
proof -
  let ?f = "\<lambda>token. if id_T token = i then token\<lparr>text_T := n\<rparr> else token"
  let ?doc' = "\<lparr>raw = buildRawFromSegments (segments st) (tokenIndex (map ?f (tokens doc))),
                tokens = map ?f (tokens doc)\<rparr>"
  have d: "promptDoc (replaceToken st i n) = Some ?doc'"
    using assms(1) by (rule replaceToken_doc)
  obtain k where k: "k < length (tokens doc)" "id_T (tokens doc ! k) = i"
    using assms(2) by (auto simp: in_set_conv_nth)
  have "\<exists>k < length (tokens doc). id_T (tokens ?doc' ! k) = i \<and> text_T (tokens ?doc' ! k) = n"
    using k by (intro exI [of _ k]) simp
  then show ?thesis
    using d by (simp add: replaceToken_segments)
qed

theorem replaceToken_frame_witness:
  "promptDoc (storePrompt (\<lambda>c. c) (js ''a blue sky'') [sampleToken ''t1'' ''blue''] initialState)
     = Some \<lparr>raw = js ''a blue sky'', tokens = [sampleToken ''t1'' ''blue'']\<rparr>
   \<and> js ''t1'' \<in> id_T ` set (tokens \<lparr>raw = js ''a blue sky'', tokens = [sampleToken ''t1'' ''blue'']\<rparr>)
   \<and> (\<exists>doc'. promptDoc (replaceToken
                  (storePrompt (\<lambda>c. c) (js ''a blue sky'') [sampleToken ''t1'' ''blue''] initialState)
                  (js ''t1'') (js ''azure'')) = Some doc'
          \<and> length (tokens doc') = 1
          \<and> id_T (tokens doc' ! 0) = js ''t1''
          \<and> text_T (tokens doc' ! 0) = js ''azure'')
   \<and> segments (replaceToken
                  (storePrompt (\<lambda>c. c) (js ''a blue sky'') [sampleToken ''t1'' ''blue''] initialState)
                  (js ''t1'') (js ''azure''))
       = segments (storePrompt (\<lambda>c. c) (js ''a blue sky'') [sampleToken ''t1'' ''blue''] initialState)"
proof -
  let ?doc = "\<lparr>raw = js ''a blue sky'', tokens = [sampleToken ''t1'' ''blue'']\<rparr>"
  let ?st = "storePrompt (\<lambda>c. c) (js ''a blue sky'') [sampleToken ''t1'' ''blue''] initialState"
  have h1: "promptDoc ?st = Some ?doc"
    by (simp add: storePrompt_def)
  have h2: "js ''t1'' \<in> id_T ` set (tokens ?doc)"
    by (simp add: sampleToken_def)
  show ?thesis
    using h1 h2 replaceToken_frame [OF h1 h2, of "js ''azure''"]
    by (auto simp: sampleToken_def)
qed

subsection \<open>C9\<close>

text \<open>
  Claim C9. The texts and the alternatives of the extracted tokens depend on the prompt
  alone (lemma \<open>fallback_texts_alts_deterministic\<close>), but the roles do not: the four
  keyword patterns carry the flag \<open>g\<close>, so \<open>test\<close> starts at the \<open>lastIndex\<close> the previous
  call left. From the initial module state, a first run on the prompt "cinematic" gives
  one token of role mood and leaves \<open>lastIndex\<close> 9 on the second pattern; a second run on
  the same prompt starts that pattern at index 9, finds nothing, and gives the same
  token with the role descriptor.
\<close>

theorem fallback_roles_differ:
  "map found_text (fst (extractFallbackTokens U L now initialGlobals (js ''cinematic''))) = [js ''cinematic'']
   \<and> map found_role (fst (extractFallbackTokens U L now initialGlobals (js ''cinematic''))) = [mood]
   \<and> lastIndex (snd (extractFallbackTokens U L now initialGlobals (js ''cinematic''))) = [0, 9, 0, 0]
   \<and> map found_text (fst (extractFallbackTokens U L now'
                             (snd (extractFallbackTokens U L now initialGlobals (js ''cinematic'')))
                             (js ''cinematic''))) = [js ''cinematic'']
   \<and> map found_role (fst (extractFallbackTokens U L now'
                             (snd (extractFallbackTokens U L now initialGlobals (js ''cinematic'')))
                             (js ''cinematic''))) = [descriptor]"
proof -
  let ?p = "js ''cinematic''"
  let ?g1 = "snd (makeToken U L now initialGlobals ?p)"
  have l0: "lastIndex initialGlobals = [0, 0, 0, 0]" by (simp add: initialGlobals_def)
  have r1: "fst (inferRole U initialGlobals ?p) = mood"
    and l1: "lastIndex (snd (inferRole U initialGlobals ?p)) = [0, 9, 0, 0]"
    using inferRole_cinematic_first [OF l0] by auto
  have g1: "lastIndex ?g1 = [0, 9, 0, 0]"
    by (simp add: makeToken_lastIndex l1)
  have r2: "fst (inferRole U ?g1 ?p) = descriptor"
    using inferRole_cinematic_second [OF g1] by auto
  show ?thesis
    by (simp add: extract_cinematic makeToken_text makeToken_role r1 r2 g1)
qed

subsection \<open>C10\<close>

text \<open>
  Claim C10. \<open>buildRawFromSegments\<close> has no failing path: the model is a total function to
  strings because the source guards the lookup with \<open>?.\<close> and \<open>??\<close>. A token segment
  whose id is not a key of the map contributes nothing: the rebuilt text is the rebuild
  of the segments before it followed by the rebuild of the segments after it.
\<close>

theorem buildRaw_dangling:
  "m i = None \<Longrightarrow>
   buildRawFromSegments (xs @ Token_seg i # ys) m
     = buildRawFromSegments xs m @ buildRawFromSegments ys m"
  by (simp add: buildRawFromSegments_def resolve_def)

theorem buildRaw_dangling_witness:
  "new_Map [(js ''t1'', \<lparr>id_T = js ''t1'', text_T = js ''blue'', role = descriptor, alts = []\<rparr>)]
     (js ''t9'') = None
   \<and> buildRawFromSegments
        ([Text_seg (js ''a ''), Token_seg (js ''t1'')] @ Token_seg (js ''t9'') # [Text_seg (js '' sky'')])
        (new_Map [(js ''t1'', \<lparr>id_T = js ''t1'', text_T = js ''blue'', role = descriptor, alts = []\<rparr>)])
      = js ''a blue sky''"
proof -
  let ?m = "new_Map [(js ''t1'', \<lparr>id_T = js ''t1'', text_T = js ''blue'', role = descriptor, alts = []\<rparr>)]"
  have h: "?m (js ''t9'') = None"
    by (simp add: new_Map_def js_def)
  have "buildRawFromSegments [Text_seg (js ''a ''), Token_seg (js ''t1'')] ?m = js ''a blue''"
    by (simp add: buildRawFromSegments_def resolve_def new_Map_def js_def)
  moreover have "buildRawFromSegments [Text_seg (js '' sky'')] ?m = js '' sky''"
    by (simp add: buildRawFromSegments_def resolve_def)
  ultimately show ?thesis
    using h buildRaw_dangling [of ?m "js ''t9''" "[Text_seg (js ''a ''), Token_seg (js ''t1'')]"
        "[Text_seg (js '' sky'')]"]
    by (simp add: js_def)
qed

end
